theory Spec2Isabelle
  imports Main "HOL-Library.Char_ord" "HOL-Library.List_Lexorder" "HOL-Library.Product_Lexorder" "HOL-Library.Sublist"
begin

section \<open>Strings\<close>

text \<open>
  Go strings are byte sequences; they are modelled as \<open>char list\<close>. The character classes of
  the regular expressions and the case mappings are the ASCII ones. Go folds case by
  Unicode: under the flag \<open>(?i)\<close> the letters k and s also match the runes U+212A and U+017F,
  and \<open>strings.ToLower\<close> and \<open>strings.EqualFold\<close> map every rune. The model is the
  restriction to ASCII text: it agrees with Go on the strings whose bytes are all below 128;
  \<open>Parse\<close> of the model accepts no other string, where Go accepts these two runes in the place
  of a letter k or s.
\<close>

definition is_digit :: "char \<Rightarrow> bool" where
  "is_digit c = (CHR ''0'' \<le> c \<and> c \<le> CHR ''9'')"

definition is_lower :: "char \<Rightarrow> bool" where
  "is_lower c = (CHR ''a'' \<le> c \<and> c \<le> CHR ''z'')"

definition is_upper :: "char \<Rightarrow> bool" where
  "is_upper c = (CHR ''A'' \<le> c \<and> c \<le> CHR ''Z'')"

text \<open>The class \<open>\s\<close> of Go's regexp: tab, newline, form feed, carriage return, space.\<close>

definition is_space :: "char \<Rightarrow> bool" where
  "is_space c = (c = CHR 0x09 \<or> c = CHR 0x0A \<or> c = CHR 0x0C \<or> c = CHR 0x0D \<or> c = CHR '' '')"

definition to_lower :: "char \<Rightarrow> char" where
  "to_lower c = (if is_upper c then char_of (of_char c + (32::nat)) else c)"

definition ToLower :: "string \<Rightarrow> string" where
  "ToLower s = map to_lower s"

definition EqualFold :: "string \<Rightarrow> string \<Rightarrow> bool" where
  "EqualFold s t = (ToLower s = ToLower t)"

definition HasPrefix :: "string \<Rightarrow> string \<Rightarrow> bool" where
  "HasPrefix s p = (take (length p) s = p)"

definition HasSuffix :: "string \<Rightarrow> string \<Rightarrow> bool" where
  "HasSuffix s x = (length x \<le> length s \<and> drop (length s - length x) s = x)"

definition TrimSuffix :: "string \<Rightarrow> string \<Rightarrow> string" where
  "TrimSuffix s x = (if HasSuffix s x then take (length s - length x) s else s)"

text \<open>\<open>strings.Split(s, sep)\<close> for a separator of one byte.\<close>

fun split_at :: "char \<Rightarrow> string \<Rightarrow> string \<Rightarrow> string list" where
  "split_at d acc [] = [rev acc]"
| "split_at d acc (x # xs) =
     (if x = d then rev acc # split_at d [] xs else split_at d (x # acc) xs)"

definition Split :: "string \<Rightarrow> char \<Rightarrow> string list" where
  "Split s d = split_at d [] s"

text \<open>\<open>strings.Split(s, "||")\<close>.\<close>

fun split_bars :: "string \<Rightarrow> string \<Rightarrow> string list" where
  "split_bars acc (x # y # s) =
     (if x = CHR ''|'' \<and> y = CHR ''|'' then rev acc # split_bars [] s
      else split_bars (x # acc) (y # s))"
| "split_bars acc [x] = [rev (x # acc)]"
| "split_bars acc [] = [rev acc]"

fun Join :: "string list \<Rightarrow> string \<Rightarrow> string" where
  "Join [] sep = []"
| "Join [x] sep = x"
| "Join (x # y # xs) sep = x @ sep @ Join (y # xs) sep"

section \<open>Regular expressions with submatches\<close>

text \<open>
  Go's \<open>regexp\<close> returns, of all the ways a pattern matches, the one a backtracking search
  finds first (leftmost-first, greedy operators prefer the longer iteration). All patterns of
  this package are anchored at both ends, so the result of \<open>FindStringSubmatch\<close> is the first
  path, in backtracking order, that consumes the whole input.

  \<open>matches r (s, c)\<close> lists, in backtracking order, every way of matching \<open>r\<close> on a prefix
  of \<open>s\<close>: the remaining input and the capture groups set so far.
\<close>

datatype re =
    Eps
  | Atom "char \<Rightarrow> bool"
  | Cat re re
  | Alt re re
  | Rep re
  | Grp nat re

type_synonym caps = "nat \<rightharpoonup> string"

text \<open>Greedy iteration; every round has to consume input, so the length bounds the rounds.\<close>

primrec rep_matches ::
  "(string \<times> caps \<Rightarrow> (string \<times> caps) list) \<Rightarrow> nat \<Rightarrow> string \<times> caps \<Rightarrow> (string \<times> caps) list" where
  "rep_matches f 0 x = [x]"
| "rep_matches f (Suc n) x =
     concat (map (\<lambda>y. if length (fst y) < length (fst x) then rep_matches f n y else []) (f x))
     @ [x]"

fun matches :: "re \<Rightarrow> string \<times> caps \<Rightarrow> (string \<times> caps) list" where
  "matches Eps x = [x]"
| "matches (Atom p) x =
     (case fst x of [] \<Rightarrow> [] | a # s \<Rightarrow> if p a then [(s, snd x)] else [])"
| "matches (Cat r1 r2) x = concat (map (matches r2) (matches r1 x))"
| "matches (Alt r1 r2) x = matches r1 x @ matches r2 x"
| "matches (Rep r) x = rep_matches (matches r) (length (fst x)) x"
| "matches (Grp i r) x =
     map (\<lambda>y. (fst y, (snd y)(i \<mapsto> take (length (fst x) - length (fst y)) (fst x))))
       (matches r x)"

text \<open>
  \<open>FindStringSubmatch\<close> of an anchored pattern: the capture groups of the first path that
  consumes all of the input, \<open>None\<close> where Go returns nil.
\<close>

definition FindStringSubmatch :: "re \<Rightarrow> string \<Rightarrow> caps option" where
  "FindStringSubmatch r s =
     map_option snd (find (\<lambda>y. fst y = []) (matches r (s, Map.empty)))"

text \<open>An unmatched group reads as the empty string.\<close>

definition submatch :: "caps \<Rightarrow> nat \<Rightarrow> string" where
  "submatch c i = (case c i of None \<Rightarrow> [] | Some w \<Rightarrow> w)"

definition Opt :: "re \<Rightarrow> re" where
  "Opt r = Alt r Eps"

definition Plus :: "re \<Rightarrow> re" where
  "Plus r = Cat r (Rep r)"

definition Lit :: "char \<Rightarrow> re" where
  "Lit a = Atom (\<lambda>c. c = a)"

text \<open>A letter under the flag \<open>(?i)\<close>.\<close>

definition LitI :: "char \<Rightarrow> re" where
  "LitI a = Atom (\<lambda>c. to_lower c = a)"

fun Word :: "(char \<Rightarrow> re) \<Rightarrow> string \<Rightarrow> re" where
  "Word f [] = Eps"
| "Word f [a] = f a"
| "Word f (a # b # s) = Cat (f a) (Word f (b # s))"

fun Alts :: "re list \<Rightarrow> re" where
  "Alts [] = Atom (\<lambda>c. False)"
| "Alts [r] = r"
| "Alts (r # q # rs) = Alt r (Alts (q # rs))"

text \<open>
  The same matching as a relation, for reasoning: \<open>parses r w c c'\<close> holds when \<open>r\<close> matches
  exactly the word \<open>w\<close> and turns the capture groups \<open>c\<close> into \<open>c'\<close>.
\<close>

inductive iter :: "(string \<Rightarrow> caps \<Rightarrow> caps \<Rightarrow> bool) \<Rightarrow> string \<Rightarrow> caps \<Rightarrow> caps \<Rightarrow> bool"
  for P :: "string \<Rightarrow> caps \<Rightarrow> caps \<Rightarrow> bool" where
  iter_Nil: "iter P [] c c"
| iter_Cons: "P u c c1 \<Longrightarrow> u \<noteq> [] \<Longrightarrow> iter P v c1 c2 \<Longrightarrow> iter P (u @ v) c c2"

primrec parses :: "re \<Rightarrow> string \<Rightarrow> caps \<Rightarrow> caps \<Rightarrow> bool" where
  "parses Eps w c c' = (w = [] \<and> c' = c)"
| "parses (Atom p) w c c' = (\<exists>a. w = [a] \<and> p a \<and> c' = c)"
| "parses (Cat r1 r2) w c c' = (\<exists>u v c1. w = u @ v \<and> parses r1 u c c1 \<and> parses r2 v c1 c')"
| "parses (Alt r1 r2) w c c' = (parses r1 w c c' \<or> parses r2 w c c')"
| "parses (Rep r) w c c' = iter (parses r) w c c'"
| "parses (Grp i r) w c c' = (\<exists>c1. parses r w c c1 \<and> c' = c1(i \<mapsto> w))"

text \<open>The capture groups of a pattern.\<close>

fun grps :: "re \<Rightarrow> nat set" where
  "grps Eps = {}"
| "grps (Atom p) = {}"
| "grps (Cat r1 r2) = grps r1 \<union> grps r2"
| "grps (Alt r1 r2) = grps r1 \<union> grps r2"
| "grps (Rep r) = grps r"
| "grps (Grp i r) = insert i (grps r)"

section \<open>Ordered values\<close>

text \<open>
  Modelled from the spec: the ordered-value primitive, package
  \<open>github.com/rstudio/go-version/pkg/part\<close>, is imported by the sources and is not among
  them. A value is an integer (\<open>BigInt\<close>), a string compared bytewise (\<open>PartString\<close>, the
  letters of a pre-, post- or dev-release), an alphanumeric string that ranks below every
  integer (\<open>PreString\<close>, a token of the local segment), one of the two sentinels, or a
  sequence compared element by element from the left, a sequence that is a proper prefix of
  another one being the smaller. The spec does not order an integer against a letter string,
  the two kinds of strings against each other, or a sequence against a single value; no key
  built by \<open>cmpkey\<close> asks for these, and the model answers \<open>None\<close> there.
\<close>

datatype part =
    BigInt nat
  | PartString string
  | PreString string
  | NegativeInfinity
  | Infinity
  | Parts "part list"

definition cmp :: "'a::linorder \<Rightarrow> 'a \<Rightarrow> int" where
  "cmp a b = (if a < b then - 1 else if a = b then 0 else 1)"

fun part_Compare :: "part \<Rightarrow> part \<Rightarrow> int option"
  and parts_Compare :: "part list \<Rightarrow> part list \<Rightarrow> int option" where
  "part_Compare NegativeInfinity y = (if y = NegativeInfinity then Some 0 else Some (- 1))"
| "part_Compare Infinity y = (if y = Infinity then Some 0 else Some 1)"
| "part_Compare (BigInt a) y =
     (case y of BigInt b \<Rightarrow> Some (cmp a b) | PreString t \<Rightarrow> Some 1
      | NegativeInfinity \<Rightarrow> Some 1 | Infinity \<Rightarrow> Some (- 1) | _ \<Rightarrow> None)"
| "part_Compare (PartString s) y =
     (case y of PartString t \<Rightarrow> Some (cmp s t)
      | NegativeInfinity \<Rightarrow> Some 1 | Infinity \<Rightarrow> Some (- 1) | _ \<Rightarrow> None)"
| "part_Compare (PreString s) y =
     (case y of PreString t \<Rightarrow> Some (cmp s t) | BigInt b \<Rightarrow> Some (- 1)
      | NegativeInfinity \<Rightarrow> Some 1 | Infinity \<Rightarrow> Some (- 1) | _ \<Rightarrow> None)"
| "part_Compare (Parts xs) y =
     (case y of Parts ys \<Rightarrow> parts_Compare xs ys
      | NegativeInfinity \<Rightarrow> Some 1 | Infinity \<Rightarrow> Some (- 1) | _ \<Rightarrow> None)"
| "parts_Compare [] [] = Some 0"
| "parts_Compare [] (y # ys) = Some (- 1)"
| "parts_Compare (x # xs) [] = Some 1"
| "parts_Compare (x # xs) (y # ys) =
     (case part_Compare x y of
        None \<Rightarrow> None
      | Some r \<Rightarrow> if r \<noteq> 0 then Some r else parts_Compare xs ys)"

fun IsNull :: "part \<Rightarrow> bool" where
  "IsNull (BigInt n) = (n = 0)"
| "IsNull (PartString s) = (s = [])"
| "IsNull (PreString s) = (s = [])"
| "IsNull (Parts xs) = (xs = [])"
| "IsNull NegativeInfinity = False"
| "IsNull Infinity = False"

definition Zero :: part where
  "Zero = BigInt 0"

text \<open>
  Modelled from the spec: a numeric token is a non-empty run of decimal digits, of any
  length.
\<close>

definition is_number :: "string \<Rightarrow> bool" where
  "is_number s = (s \<noteq> [] \<and> list_all is_digit s)"

definition digit_value :: "char \<Rightarrow> nat" where
  "digit_value c = of_char c - 48"

definition decimal :: "string \<Rightarrow> nat" where
  "decimal s = foldl (\<lambda>n c. 10 * n + digit_value c) 0 s"

definition NewBigInt :: "string \<Rightarrow> nat option" where
  "NewBigInt s = (if is_number s then Some (decimal s) else None)"

text \<open>Modelled from the spec: an integer prints in decimal.\<close>

fun BigInt_String :: "nat \<Rightarrow> string" where
  "BigInt_String n =
     (if n < 10 then [char_of (48 + n)]
      else BigInt_String (n div 10) @ [char_of (48 + n mod 10)])"

declare BigInt_String.simps [simp del]

definition BigIntSliceToParts :: "nat list \<Rightarrow> part list" where
  "BigIntSliceToParts ns = map BigInt ns"

text \<open>Modelled from the spec: \<open>Normalize\<close> trims the trailing zeros of a release.\<close>

definition Normalize :: "part list \<Rightarrow> part list" where
  "Normalize ps = rev (dropWhile IsNull (rev ps))"

text \<open>Modelled from the spec: \<open>Padding\<close> pads a sequence on the right up to a length.\<close>

definition Padding :: "part list \<Rightarrow> nat \<Rightarrow> part \<Rightarrow> part list" where
  "Padding ps n p = ps @ replicate (n - length ps) p"

section \<open>Versions\<close>

record letterNumber =
  letter :: string
  number :: nat

record key =
  k_epoch :: nat
  k_release :: "part list"
  k_pre :: part
  k_post :: part
  k_dev :: part
  k_local :: part

record Version =
  epoch :: nat
  release :: "nat list"
  pre :: letterNumber
  post :: letterNumber
  dev :: letterNumber
  local :: string
  key :: key
  preReleaseIncluded :: bool
  original :: string

definition key_compare :: "key \<Rightarrow> key \<Rightarrow> int option" where
  "key_compare k o' =
     parts_Compare
       [BigInt (k_epoch k), Parts (k_release k), k_pre k, k_post k, k_dev k, k_local k]
       [BigInt (k_epoch o'), Parts (k_release o'), k_pre o', k_post o', k_dev o', k_local o']"

definition isNull :: "letterNumber \<Rightarrow> bool" where
  "isNull ln = (IsNull (PartString (letter ln)) \<and> IsNull (BigInt (number ln)))"

datatype error =
    MalformedVersion string
  | ErrorParsingVersion
  | FailedToParseVersion string
  | ImproperConstraint string
  | VersionParseError error
  | WildcardWithDevOrLocal
  | WildcardNotAllowed
  | CompatibleNeedsTwoDigits
  | LocalNotAllowed

definition preReleaseAliases :: "(string \<times> string) list" where
  "preReleaseAliases =
     [(''a'', ''a''), (''alpha'', ''a''), (''b'', ''b''), (''beta'', ''b''),
      (''rc'', ''rc''), (''c'', ''rc''), (''pre'', ''rc''), (''preview'', ''rc'')]"

definition postReleaseAliases :: "(string \<times> string) list" where
  "postReleaseAliases = [(''post'', ''post''), (''rev'', ''post''), (''r'', ''post'')]"

text \<open>Indexing a Go map with a missing key gives the zero value, the empty string.\<close>

definition lookup :: "(string \<times> string) list \<Rightarrow> string \<Rightarrow> string" where
  "lookup m k = (case map_of m k of None \<Rightarrow> [] | Some v \<Rightarrow> v)"

definition is_sep :: "char \<Rightarrow> bool" where
  "is_sep c = (c = CHR ''-'' \<or> c = CHR ''_'' \<or> c = CHR ''.'')"

definition is_alnum :: "char \<Rightarrow> bool" where
  "is_alnum c = (is_lower (to_lower c) \<or> is_digit c)"

definition Digits :: re where
  "Digits = Plus (Atom is_digit)"

text \<open>
  The pattern \<open>regex\<close>, between \<open>(?i)^\s*\<close> and \<open>\s*$\<close>, one definition for each line of
  the constant; the groups are numbered as Go does.
\<close>

definition epoch_re :: re where
  "epoch_re = Opt (Cat (Grp 1 Digits) (Lit CHR ''!''))"

definition release_re :: re where
  "release_re = Grp 2 (Cat Digits (Rep (Cat (Lit CHR ''.'') Digits)))"

definition pre_words :: "string list" where
  "pre_words = [''a'', ''b'', ''c'', ''rc'', ''alpha'', ''beta'', ''pre'', ''preview'']"

definition pre_re :: re where
  "pre_re =
     Opt (Grp 3 (Cat (Opt (Atom is_sep))
                (Cat (Grp 4 (Grp 5 (Alts (map (Word LitI) pre_words))))
                (Cat (Opt (Atom is_sep))
                     (Opt (Grp 6 Digits))))))"

definition post_words :: "string list" where
  "post_words = [''post'', ''rev'', ''r'']"

definition post_re :: re where
  "post_re =
     Opt (Grp 7 (Alt (Cat (Lit CHR ''-'') (Grp 8 Digits))
                     (Cat (Opt (Atom is_sep))
                     (Cat (Grp 9 (Alts (map (Word LitI) post_words)))
                     (Cat (Opt (Atom is_sep))
                          (Opt (Grp 10 Digits)))))))"

definition dev_re :: re where
  "dev_re =
     Opt (Grp 11 (Cat (Opt (Atom is_sep))
                 (Cat (Grp 12 (Word LitI ''dev''))
                 (Cat (Opt (Atom is_sep))
                      (Opt (Grp 13 Digits))))))"

definition local_re :: re where
  "local_re =
     Opt (Cat (Lit CHR ''+'')
              (Grp 14 (Cat (Plus (Atom is_alnum))
                           (Rep (Cat (Atom is_sep) (Plus (Atom is_alnum)))))))"

definition versionRegex :: re where
  "versionRegex =
     Cat (Rep (Atom is_space))
    (Cat (Opt (LitI CHR ''v''))
    (Cat (Cat epoch_re (Cat release_re (Cat pre_re (Cat post_re dev_re))))
    (Cat local_re
         (Rep (Atom is_space)))))"

definition SubexpNames :: "string list" where
  "SubexpNames =
     [[], ''epoch'', ''release'', ''pre'', ''pre_l'', [], ''pre_n'', ''post'', ''post_n1'',
      ''post_l'', ''post_n2'', ''dev'', ''dev_l'', ''dev_n'', ''local'']"

text \<open>The local variables of \<open>Parse\<close>.\<close>

record vars =
  v_epoch :: nat
  v_release :: "nat list"
  preL :: string
  preN :: nat
  postL :: string
  postN :: nat
  devL :: string
  devN :: nat
  v_local :: string

fun parse_release :: "string list \<Rightarrow> nat list option" where
  "parse_release [] = Some []"
| "parse_release (str # strs) =
     (case NewBigInt str of
        None \<Rightarrow> None
      | Some val \<Rightarrow> (case parse_release strs of None \<Rightarrow> None | Some vals \<Rightarrow> Some (val # vals)))"

text \<open>One round of the loop over the group names, for the group \<open>name\<close> with text \<open>m\<close>.\<close>

definition parse_group :: "string \<Rightarrow> string \<Rightarrow> string \<Rightarrow> vars \<Rightarrow> error + vars" where
  "parse_group v name m st =
     (if m = [] then Inr st
      else if name = ''epoch'' then
        (case NewBigInt m of None \<Rightarrow> Inl (FailedToParseVersion v)
         | Some n \<Rightarrow> Inr (st\<lparr>v_epoch := n\<rparr>))
      else if name = ''release'' then
        (case parse_release (Split m CHR ''.'') of None \<Rightarrow> Inl ErrorParsingVersion
         | Some ns \<Rightarrow> Inr (st\<lparr>v_release := v_release st @ ns\<rparr>))
      else if name = ''pre_l'' then Inr (st\<lparr>preL := lookup preReleaseAliases (ToLower m)\<rparr>)
      else if name = ''pre_n'' then
        (case NewBigInt m of None \<Rightarrow> Inl (FailedToParseVersion v)
         | Some n \<Rightarrow> Inr (st\<lparr>preN := n\<rparr>))
      else if name = ''post_l'' then Inr (st\<lparr>postL := lookup postReleaseAliases (ToLower m)\<rparr>)
      else if name = ''post_n1'' \<or> name = ''post_n2'' then
        (let st' = (if postL st = [] then st\<lparr>postL := ''post''\<rparr> else st)
         in case NewBigInt m of None \<Rightarrow> Inl (FailedToParseVersion v)
            | Some n \<Rightarrow> Inr (st'\<lparr>postN := n\<rparr>))
      else if name = ''dev_l'' then Inr (st\<lparr>devL := ToLower m\<rparr>)
      else if name = ''dev_n'' then
        (case NewBigInt m of None \<Rightarrow> Inl (FailedToParseVersion v)
         | Some n \<Rightarrow> Inr (st\<lparr>devN := n\<rparr>))
      else if name = ''local'' then Inr (st\<lparr>v_local := ToLower m\<rparr>)
      else Inr st)"

fun parse_groups :: "string \<Rightarrow> caps \<Rightarrow> (nat \<times> string) list \<Rightarrow> vars \<Rightarrow> error + vars" where
  "parse_groups v c [] st = Inr st"
| "parse_groups v c ((i, name) # rest) st =
     (case parse_group v name (submatch c i) st of
        Inl e \<Rightarrow> Inl e
      | Inr st' \<Rightarrow> parse_groups v c rest st')"

fun local_parts :: "string list \<Rightarrow> part list" where
  "local_parts [] = []"
| "local_parts (l # ls) =
     (case NewBigInt l of Some p \<Rightarrow> BigInt p | None \<Rightarrow> PreString l) # local_parts ls"

definition cmpkey ::
  "nat \<Rightarrow> nat list \<Rightarrow> letterNumber \<Rightarrow> letterNumber \<Rightarrow> letterNumber \<Rightarrow> string \<Rightarrow> key" where
  "cmpkey epoch' release' pre' post' dev' local' =
     (let k = \<lparr>k_epoch = epoch',
               k_release = [],
               k_pre = Parts [PartString (letter pre'), BigInt (number pre')],
               k_post = Parts [PartString (letter post'), BigInt (number post')],
               k_dev = Parts [PartString (letter dev'), BigInt (number dev')],
               k_local = NegativeInfinity\<rparr>;
          k = k\<lparr>k_release := Normalize (BigIntSliceToParts release')\<rparr>;
          k = (if isNull pre' \<and> isNull post' \<and> \<not> isNull dev' then k\<lparr>k_pre := NegativeInfinity\<rparr>
               else if isNull pre' then k\<lparr>k_pre := Infinity\<rparr> else k);
          k = (if isNull post' then k\<lparr>k_post := NegativeInfinity\<rparr> else k);
          k = (if isNull dev' then k\<lparr>k_dev := Infinity\<rparr> else k);
          k = (if local' \<noteq> [] then k\<lparr>k_local := Parts (local_parts (Split local' CHR ''.''))\<rparr>
               else k)
      in k)"

definition Parse :: "string \<Rightarrow> error + Version" where
  "Parse v =
     (case FindStringSubmatch versionRegex v of
        None \<Rightarrow> Inl (MalformedVersion v)
      | Some c \<Rightarrow>
          (case parse_groups v (c(0 \<mapsto> v)) (enumerate 0 SubexpNames)
                  \<lparr>v_epoch = 0, v_release = [], preL = [], preN = 0, postL = [], postN = 0,
                   devL = [], devN = 0, v_local = []\<rparr> of
             Inl e \<Rightarrow> Inl e
           | Inr st \<Rightarrow>
               (let pre' = \<lparr>letter = preL st, number = preN st\<rparr>;
                    post' = \<lparr>letter = postL st, number = postN st\<rparr>;
                    dev' = \<lparr>letter = devL st, number = devN st\<rparr>
                in Inr \<lparr>epoch = v_epoch st,
                        release = v_release st,
                        pre = pre',
                        post = post',
                        dev = dev',
                        local = v_local st,
                        key = cmpkey (v_epoch st) (v_release st) pre' post' dev' (v_local st),
                        preReleaseIncluded = False,
                        original = v\<rparr>)))"

text \<open>\<open>MustParse\<close> panics where \<open>Parse\<close> fails; a panic is \<open>None\<close>.\<close>

definition MustParse :: "string \<Rightarrow> Version option" where
  "MustParse v = (case Parse v of Inl e \<Rightarrow> None | Inr ver \<Rightarrow> Some ver)"

text \<open>
  \<open>String\<close> reads \<open>v.release[0]\<close>, which panics on an empty release; the epoch is printed
  when it is greater than zero.
\<close>

definition String :: "Version \<Rightarrow> string option" where
  "String v =
     (case release v of
        [] \<Rightarrow> None
      | r # rs \<Rightarrow>
          Some ((if epoch v > 0 then BigInt_String (epoch v) @ ''!'' else [])
            @ BigInt_String r
            @ concat (map (\<lambda>r. ''.'' @ BigInt_String r) rs)
            @ (if \<not> isNull (pre v) then letter (pre v) @ BigInt_String (number (pre v)) else [])
            @ (if \<not> isNull (post v) then ''.post'' @ BigInt_String (number (post v)) else [])
            @ (if \<not> isNull (dev v) then ''.dev'' @ BigInt_String (number (dev v)) else [])
            @ (if local v \<noteq> [] then ''+'' @ local v else [])))"

definition BaseVersion :: "Version \<Rightarrow> string option" where
  "BaseVersion v =
     (case release v of
        [] \<Rightarrow> None
      | r # rs \<Rightarrow>
          Some ((if epoch v > 0 then BigInt_String (epoch v) @ ''!'' else [])
            @ BigInt_String r
            @ concat (map (\<lambda>r. ''.'' @ BigInt_String r) rs)))"

text \<open>\<open>strings.SplitN(s, "+", 2)[0]\<close>: the text before the first plus sign.\<close>

definition Public :: "Version \<Rightarrow> string option" where
  "Public v = map_option (takeWhile (\<lambda>c. c \<noteq> CHR ''+'')) (String v)"

definition IsPreRelease :: "Version \<Rightarrow> bool" where
  "IsPreRelease v =
     (if preReleaseIncluded v then False else \<not> isNull (pre v) \<or> \<not> isNull (dev v))"

definition IsPostRelease :: "Version \<Rightarrow> bool" where
  "IsPostRelease v = (\<not> isNull (post v))"

text \<open>
  \<open>Compare\<close>: equal canonical strings give 0; otherwise the keys are compared, the release
  of the receiver padded to the length of the other one, the other one to its own length.
\<close>

definition Compare :: "Version \<Rightarrow> Version \<Rightarrow> int option" where
  "Compare v other =
     (case String v of
        None \<Rightarrow> None
      | Some s1 \<Rightarrow>
          (case String other of
             None \<Rightarrow> None
           | Some s2 \<Rightarrow>
               if s1 = s2 then Some 0
               else
                 (let k1 = key v; k2 = key other;
                      k1 = k1\<lparr>k_release := Padding (k_release k1) (length (k_release k2)) Zero\<rparr>;
                      k2 = k2\<lparr>k_release := Padding (k_release k2) (length (k_release k2)) Zero\<rparr>
                  in key_compare k1 k2)))"

definition Equal :: "Version \<Rightarrow> Version \<Rightarrow> bool option" where
  "Equal v o' = map_option (\<lambda>r. r = 0) (Compare v o')"

definition GreaterThan :: "Version \<Rightarrow> Version \<Rightarrow> bool option" where
  "GreaterThan v o' = map_option (\<lambda>r. r > 0) (Compare v o')"

definition GreaterThanOrEqual :: "Version \<Rightarrow> Version \<Rightarrow> bool option" where
  "GreaterThanOrEqual v o' = map_option (\<lambda>r. r \<ge> 0) (Compare v o')"

definition LessThan :: "Version \<Rightarrow> Version \<Rightarrow> bool option" where
  "LessThan v o' = map_option (\<lambda>r. r < 0) (Compare v o')"

definition LessThanOrEqual :: "Version \<Rightarrow> Version \<Rightarrow> bool option" where
  "LessThanOrEqual v o' = map_option (\<lambda>r. r \<le> 0) (Compare v o')"

section \<open>Constraints\<close>

text \<open>An operator function panics where a \<open>MustParse\<close> or a slice expression does: \<open>None\<close>.\<close>

type_synonym operatorFunc = "Version \<Rightarrow> string \<Rightarrow> bool option"

record constraint =
  c_version :: string
  c_operator :: "operatorFunc option"
  c_original :: string

record Constraints =
  constraints :: "constraint list list"

text \<open>
  The pattern \<open>specifierRegex\<close> between \<open>(?i)^\s*\<close> and \<open>\s*$\<close>: group 1 is \<open>operator\<close>,
  group 3 is \<open>version\<close>.
\<close>

definition specifierRegexp :: re where
  "specifierRegexp =
     Cat (Rep (Atom is_space))
    (Cat (Grp 1 (Grp 2 (Alts (map (Word Lit)
            [''~='', ''==='', ''=='', ''!='', ''<='', ''>='', ''<'', ''>'']))))
    (Cat (Rep (Atom is_space))
    (Cat (Grp 3 (Rep (Atom (\<lambda>c. \<not> is_space c))))
         (Rep (Atom is_space)))))"

text \<open>The pattern \<open>^([0-9]+)((?:a|b|c|rc)[0-9]+)$\<close>.\<close>

definition prefixRegexp :: re where
  "prefixRegexp =
     Cat (Grp 1 Digits)
         (Grp 2 (Cat (Alts (map (Word Lit) [''a'', ''b'', ''c'', ''rc''])) Digits))"

fun versionSplit_parts :: "string list \<Rightarrow> string list" where
  "versionSplit_parts [] = []"
| "versionSplit_parts (v # vs) =
     (case FindStringSubmatch prefixRegexp v of
        Some m \<Rightarrow> [submatch m 1, submatch m 2] @ versionSplit_parts vs
      | None \<Rightarrow> v # versionSplit_parts vs)"

definition versionSplit :: "string \<Rightarrow> string list" where
  "versionSplit version = versionSplit_parts (Split version CHR ''.'')"

text \<open>
  \<open>strconv.Atoi\<close> with a 64-bit \<open>int\<close>: an optional sign, then decimal digits, the value
  within the range of the type.
\<close>

definition Atoi :: "string \<Rightarrow> int option" where
  "Atoi s =
     (let neg = (s \<noteq> [] \<and> hd s = CHR ''-'');
          ds = (if s \<noteq> [] \<and> (hd s = CHR ''-'' \<or> hd s = CHR ''+'') then tl s else s)
      in if \<not> is_number ds then None
         else
           (let n = int (decimal ds)
            in if neg then (if n \<le> 2 ^ 63 then Some (- n) else None)
               else (if n < 2 ^ 63 then Some n else None)))"

definition isDigist :: "string \<Rightarrow> bool" where
  "isDigist s = (Atoi s \<noteq> None)"

text \<open>
  The padding loops of \<open>padVersion\<close>: \<open>for i := 0; i < n - len(xs); i++ { xs = append(xs, "0") }\<close>,
  the bound read again in every round.
\<close>

function pad_loop :: "nat \<Rightarrow> nat \<Rightarrow> string list \<Rightarrow> string list" where
  "pad_loop i n xs =
     (if int i < int n - int (length xs) then pad_loop (Suc i) n (xs @ [''0'']) else xs)"
  by pat_completeness auto
termination
  by (relation "measure (\<lambda>(i, n, xs). n - length xs)") auto

declare pad_loop.simps [simp del]

definition padVersion :: "string list \<Rightarrow> string list \<Rightarrow> (string list \<times> string list) option" where
  "padVersion left right =
     (let leftRelease = filter isDigist left;
          rightRelease = filter isDigist right;
          leftRest = drop (length leftRelease) left
      in if length rightRelease > length left then None
         else
           (let rightRest = drop (length rightRelease) left;
                rightRelease = pad_loop 0 (length leftRelease) rightRelease;
                leftRelease = pad_loop 0 (length rightRelease) leftRelease
            in Some (leftRelease @ leftRest, rightRelease @ rightRest)))"

definition specifierEqual :: operatorFunc where
  "specifierEqual prospective spec =
     (if HasSuffix spec ''.*'' then
        (case Public prospective of
           None \<Rightarrow> None
         | Some pub \<Rightarrow>
        (case MustParse pub of
           None \<Rightarrow> None
         | Some prospective \<Rightarrow>
        (let splitSpec = versionSplit (TrimSuffix spec ''.*'') in
        (case String prospective of
           None \<Rightarrow> None
         | Some str \<Rightarrow>
        (let splitProspective = versionSplit str;
             splitProspective =
               (if length splitProspective > length splitSpec
                then take (length splitSpec) splitProspective else splitProspective)
         in case padVersion splitSpec splitProspective of
              None \<Rightarrow> None
            | Some (paddedSpec, paddedProspective) \<Rightarrow> Some (paddedSpec = paddedProspective))))))
      else
        (case MustParse spec of
           None \<Rightarrow> None
         | Some specVersion \<Rightarrow>
             if local specVersion = [] then
               (case Public prospective of
                  None \<Rightarrow> None
                | Some pub \<Rightarrow>
                    (case MustParse pub of
                       None \<Rightarrow> None
                     | Some prospective \<Rightarrow> Equal specVersion prospective))
             else Equal specVersion prospective))"

definition specifierNotEqual :: operatorFunc where
  "specifierNotEqual prospective spec = map_option Not (specifierEqual prospective spec)"

text \<open>\<open>MustParse(a.BaseVersion()).Equal(MustParse(b.BaseVersion()))\<close>.\<close>

definition base_Equal :: "Version \<Rightarrow> Version \<Rightarrow> bool option" where
  "base_Equal a b =
     (case BaseVersion a of
        None \<Rightarrow> None
      | Some ba \<Rightarrow>
     (case MustParse ba of
        None \<Rightarrow> None
      | Some va \<Rightarrow>
     (case BaseVersion b of
        None \<Rightarrow> None
      | Some bb \<Rightarrow>
     (case MustParse bb of
        None \<Rightarrow> None
      | Some vb \<Rightarrow> Equal va vb))))"

definition specifierLessThan :: operatorFunc where
  "specifierLessThan prospective spec =
     (case MustParse spec of
        None \<Rightarrow> None
      | Some s \<Rightarrow>
     (case LessThan prospective s of
        None \<Rightarrow> None
      | Some lt \<Rightarrow>
          if \<not> lt then Some False
          else if \<not> IsPreRelease s \<and> IsPreRelease prospective then
            (case base_Equal prospective s of
               None \<Rightarrow> None
             | Some eq \<Rightarrow> if eq then Some False else Some True)
          else Some True))"

definition specifierGreaterThan :: operatorFunc where
  "specifierGreaterThan prospective spec =
     (case MustParse spec of
        None \<Rightarrow> None
      | Some s \<Rightarrow>
     (case GreaterThan prospective s of
        None \<Rightarrow> None
      | Some gt \<Rightarrow>
          if \<not> gt then Some False
          else
            (case (if \<not> IsPostRelease s \<and> IsPostRelease prospective
                   then base_Equal prospective s else Some False) of
               None \<Rightarrow> None
             | Some eq \<Rightarrow>
                 if eq then Some False
                 else if local prospective \<noteq> [] then
                   (case base_Equal prospective s of
                      None \<Rightarrow> None
                    | Some eq' \<Rightarrow> if eq' then Some False else Some True)
                 else Some True)))"

definition specifierArbitrary :: operatorFunc where
  "specifierArbitrary prospective spec =
     (case String prospective of None \<Rightarrow> None | Some str \<Rightarrow> Some (EqualFold str spec))"

definition specifierLessThanEqual :: operatorFunc where
  "specifierLessThanEqual prospective spec =
     (case Public prospective of
        None \<Rightarrow> None
      | Some pub \<Rightarrow>
     (case MustParse pub of
        None \<Rightarrow> None
      | Some p \<Rightarrow>
     (case MustParse spec of
        None \<Rightarrow> None
      | Some s \<Rightarrow> LessThanOrEqual p s)))"

definition specifierGreaterThanEqual :: operatorFunc where
  "specifierGreaterThanEqual prospective spec =
     (case Public prospective of
        None \<Rightarrow> None
      | Some pub \<Rightarrow>
     (case MustParse pub of
        None \<Rightarrow> None
      | Some p \<Rightarrow>
     (case MustParse spec of
        None \<Rightarrow> None
      | Some s \<Rightarrow> GreaterThanOrEqual p s)))"

text \<open>The loop that collects \<open>prefixElements\<close>, up to the first post or dev token.\<close>

fun prefixElements :: "string list \<Rightarrow> string list" where
  "prefixElements [] = []"
| "prefixElements (s # ss) =
     (if HasPrefix s ''post'' \<or> HasPrefix s ''dev'' then [] else s # prefixElements ss)"

text \<open>\<open>prefixElements[:len(prefixElements)-1]\<close> panics on an empty slice.\<close>

definition specifierCompatible :: operatorFunc where
  "specifierCompatible prospective spec =
     (let elems = prefixElements (versionSplit spec)
      in if elems = [] then None
         else
           (let prefix = Join (butlast elems) ''.'';
                prefix = prefix @ ''.*''
            in case specifierGreaterThanEqual prospective spec of
                 None \<Rightarrow> None
               | Some ge \<Rightarrow> if ge then specifierEqual prospective prefix else Some False))"

definition specifierOperators :: "(string \<times> operatorFunc) list" where
  "specifierOperators =
     [(''=='', specifierEqual),
      (''!='', specifierNotEqual),
      (''>'', specifierGreaterThan),
      (''<'', specifierLessThan),
      (''>='', specifierGreaterThanEqual),
      (''<='', specifierLessThanEqual),
      (''==='', specifierArbitrary),
      (''~='', specifierCompatible)]"

definition validate :: "string \<Rightarrow> string \<Rightarrow> error option" where
  "validate operator version =
     (let hasWildcard = HasSuffix version ''.*'';
          version = (if hasWildcard then TrimSuffix version ''.*'' else version)
      in case Parse version of
           Inl err \<Rightarrow> Some (VersionParseError err)
         | Inr v \<Rightarrow>
             if operator = ''=='' \<or> operator = ''!='' then
               (if hasWildcard \<and> (\<not> isNull (dev v) \<or> local v \<noteq> [])
                then Some WildcardWithDevOrLocal else None)
             else if operator = ''~='' then
               (if hasWildcard then Some WildcardNotAllowed
                else if length (release v) < 2 then Some CompatibleNeedsTwoDigits
                else if local v \<noteq> [] then Some LocalNotAllowed
                else None)
             else
               (if hasWildcard then Some WildcardNotAllowed
                else if local v \<noteq> [] then Some LocalNotAllowed
                else None))"

definition newConstraint :: "string \<Rightarrow> error + constraint" where
  "newConstraint c =
     (case FindStringSubmatch specifierRegexp c of
        None \<Rightarrow> Inl (ImproperConstraint c)
      | Some m \<Rightarrow>
          (let operator = submatch m 1;
               version = submatch m 3
           in case (if operator \<noteq> ''==='' then validate operator version else None) of
                Some err \<Rightarrow> Inl err
              | None \<Rightarrow>
                  Inr \<lparr>c_version = version,
                       c_operator = map_of specifierOperators operator,
                       c_original = c\<rparr>))"

fun newConstraints_and :: "string list \<Rightarrow> error + constraint list" where
  "newConstraints_and [] = Inr []"
| "newConstraints_and (single # rest) =
     (case newConstraint single of
        Inl err \<Rightarrow> Inl err
      | Inr c \<Rightarrow>
          (case newConstraints_and rest of Inl err \<Rightarrow> Inl err | Inr cs \<Rightarrow> Inr (c # cs)))"

fun newConstraints_or :: "string list \<Rightarrow> error + constraint list list" where
  "newConstraints_or [] = Inr []"
| "newConstraints_or (vv # rest) =
     (case newConstraints_and (Split vv CHR '','') of
        Inl err \<Rightarrow> Inl err
      | Inr cs \<Rightarrow>
          (case newConstraints_or rest of Inl err \<Rightarrow> Inl err | Inr css \<Rightarrow> Inr (cs # css)))"

definition NewConstraints :: "string \<Rightarrow> error + Constraints" where
  "NewConstraints v =
     (case newConstraints_or (split_bars [] v) of
        Inl err \<Rightarrow> Inl err
      | Inr css \<Rightarrow> Inr \<lparr>constraints = css\<rparr>)"

text \<open>Calling the nil function of an unknown operator panics.\<close>

definition check :: "constraint \<Rightarrow> Version \<Rightarrow> bool option" where
  "check c v = (case c_operator c of None \<Rightarrow> None | Some f \<Rightarrow> f v (c_version c))"

fun andCheck :: "Version \<Rightarrow> constraint list \<Rightarrow> bool option" where
  "andCheck v [] = Some True"
| "andCheck v (c # cs) =
     (case check c v of
        None \<Rightarrow> None
      | Some ok \<Rightarrow> if \<not> ok then Some False else andCheck v cs)"

fun Check_groups :: "constraint list list \<Rightarrow> Version \<Rightarrow> bool option" where
  "Check_groups [] v = Some False"
| "Check_groups (c # cs) v =
     (case andCheck v c of
        None \<Rightarrow> None
      | Some ok \<Rightarrow> if ok then Some True else Check_groups cs v)"

definition Check :: "Constraints \<Rightarrow> Version \<Rightarrow> bool option" where
  "Check cs v = Check_groups (constraints cs) v"

section \<open>Notions used in the statements\<close>

text \<open>
  Parsing a list of version strings, and a list of versions that is strictly ascending: every
  version compares equal to itself, and for every version and every later one \<open>Compare\<close>
  answers -1 one way and 1 the other way, \<open>LessThan\<close> true one way and false the other way.
\<close>

fun parse_all :: "string list \<Rightarrow> Version list option" where
  "parse_all [] = Some []"
| "parse_all (s # ss) =
     (case Parse s of
        Inl e \<Rightarrow> None
      | Inr v \<Rightarrow> (case parse_all ss of None \<Rightarrow> None | Some vs \<Rightarrow> Some (v # vs)))"

fun strictly_ascending :: "Version list \<Rightarrow> bool" where
  "strictly_ascending [] = True"
| "strictly_ascending (a # vs) =
     (Compare a a = Some 0 \<and> LessThan a a = Some False \<and>
      list_all (\<lambda>b. Compare a b = Some (- 1) \<and> Compare b a = Some 1 \<and>
                    LessThan a b = Some True \<and> LessThan b a = Some False) vs \<and>
      strictly_ascending vs)"

text \<open>
  The wildcard match in the words of the spec: the candidate tokens are cut to the length of
  the spec's, the leading numeric tokens of the shorter side are padded with \<open>"0"\<close>, every
  side keeps its own trailing tokens, and the two sequences have to be equal.
\<close>

definition wildcard_spec :: "string list \<Rightarrow> string list \<Rightarrow> bool" where
  "wildcard_spec splitSpec splitProspective =
     (let cand = take (length splitSpec) splitProspective;
          specRelease = takeWhile isDigist splitSpec;
          candRelease = takeWhile isDigist cand;
          specRest = drop (length specRelease) splitSpec;
          candRest = drop (length candRelease) cand;
          n = max (length specRelease) (length candRelease)
      in specRelease @ replicate (n - length specRelease) ''0'' @ specRest
         = candRelease @ replicate (n - length candRelease) ''0'' @ candRest)"

section \<open>Notions used in the proofs\<close>

definition opt_sep :: "string \<Rightarrow> bool" where
  "opt_sep s = (length s \<le> 1 \<and> list_all is_sep s)"

definition dotted :: "string \<Rightarrow> string list \<Rightarrow> string" where
  "dotted x xs = x @ concat (map ((#) CHR ''.'') xs)"

definition opt_v :: "string \<Rightarrow> bool" where
  "opt_v s = (length s \<le> 1 \<and> list_all (\<lambda>x. to_lower x = CHR ''v'') s)"

definition is_word :: "string \<Rightarrow> bool" where
  "is_word s = (s \<noteq> [] \<and> list_all is_alnum s)"

definition is_local :: "string \<Rightarrow> bool" where
  "is_local l = (\<exists>x us. l = x @ concat us \<and> is_word x \<and>
     list_all (\<lambda>u. \<exists>d y. u = d # y \<and> is_sep d \<and> is_word y) us)"

text \<open>The core of the pattern: epoch, release, pre, post and dev.\<close>

definition core_re :: re where
  "core_re = Cat epoch_re (Cat release_re (Cat pre_re (Cat post_re dev_re)))"

text \<open>The value of an optional numeric group, and the variables of \<open>Parse\<close> after its loop.\<close>

definition num :: "string \<Rightarrow> nat" where
  "num w = (if w = [] then 0 else decimal w)"

definition post_letter :: "caps \<Rightarrow> string" where
  "post_letter c =
     (let l = (if submatch c 9 \<noteq> [] then lookup postReleaseAliases (ToLower (submatch c 9))
               else if submatch c 8 \<noteq> [] then ''post'' else [])
      in if submatch c 10 \<noteq> [] \<and> l = [] then ''post'' else l)"

definition vars_of_caps :: "caps \<Rightarrow> vars" where
  "vars_of_caps c =
     \<lparr>v_epoch = num (submatch c 1),
      v_release = (if submatch c 2 = [] then [] else map decimal (Split (submatch c 2) CHR ''.'')),
      preL = (if submatch c 4 = [] then [] else lookup preReleaseAliases (ToLower (submatch c 4))),
      preN = num (submatch c 6),
      postL = post_letter c,
      postN = (if submatch c 10 \<noteq> [] then decimal (submatch c 10) else num (submatch c 8)),
      devL = ToLower (submatch c 12),
      devN = num (submatch c 13),
      v_local = ToLower (submatch c 14)\<rparr>"

definition version_of_vars :: "string \<Rightarrow> vars \<Rightarrow> Version" where
  "version_of_vars v st =
     \<lparr>epoch = v_epoch st,
      release = v_release st,
      pre = \<lparr>letter = preL st, number = preN st\<rparr>,
      post = \<lparr>letter = postL st, number = postN st\<rparr>,
      dev = \<lparr>letter = devL st, number = devN st\<rparr>,
      local = v_local st,
      key = cmpkey (v_epoch st) (v_release st) \<lparr>letter = preL st, number = preN st\<rparr>
              \<lparr>letter = postL st, number = postN st\<rparr> \<lparr>letter = devL st, number = devN st\<rparr>
              (v_local st),
      preReleaseIncluded = False,
      original = v\<rparr>"

text \<open>What a match of the whole pattern says about the groups that \<open>Parse\<close> reads.\<close>

definition groups_ok :: "caps \<Rightarrow> bool" where
  "groups_ok c =
     (list_all is_digit (submatch c 1) \<and>
      (\<exists>x xs. submatch c 2 = dotted x xs \<and> is_number x \<and> list_all is_number xs) \<and>
      (submatch c 4 = [] \<and> submatch c 6 = [] \<or>
         ToLower (submatch c 4) \<in> set pre_words \<and> list_all is_digit (submatch c 6)) \<and>
      (submatch c 8 = [] \<and> submatch c 9 = [] \<and> submatch c 10 = [] \<or>
         is_number (submatch c 8) \<and> submatch c 9 = [] \<and> submatch c 10 = [] \<or>
         submatch c 8 = [] \<and> ToLower (submatch c 9) \<in> set post_words \<and>
           list_all is_digit (submatch c 10)) \<and>
      (submatch c 12 = [] \<and> submatch c 13 = [] \<or>
         ToLower (submatch c 12) = ''dev'' \<and> list_all is_digit (submatch c 13)) \<and>
      (submatch c 14 = [] \<or> is_local (submatch c 14)))"

text \<open>The invariant of the versions that \<open>Parse\<close> returns.\<close>

definition wf_ln :: "string set \<Rightarrow> letterNumber \<Rightarrow> bool" where
  "wf_ln ls p = (letter p = [] \<and> number p = 0 \<or> letter p \<in> ls)"

definition wf_version :: "Version \<Rightarrow> bool" where
  "wf_version v =
     (release v \<noteq> [] \<and>
      wf_ln {''a'', ''b'', ''rc''} (pre v) \<and> wf_ln {''post''} (post v) \<and> wf_ln {''dev''} (dev v) \<and>
      (local v = [] \<or> is_local (local v) \<and> ToLower (local v) = local v) \<and>
      key v = cmpkey (epoch v) (release v) (pre v) (post v) (dev v) (local v) \<and>
      preReleaseIncluded v = False)"

text \<open>
  What may follow the release in a match: nothing, or a character that is neither a digit
  nor an exclamation mark, a dot only before a character that is not a digit.
\<close>

definition tail_ok :: "string \<Rightarrow> bool" where
  "tail_ok u =
     (case u of
        [] \<Rightarrow> True
      | a # t \<Rightarrow> \<not> is_digit a \<and> a \<noteq> CHR ''!'' \<and>
          (if a = CHR ''.'' then (case t of [] \<Rightarrow> False | b # t' \<Rightarrow> \<not> is_digit b) else True))"

definition is_alpha :: "char \<Rightarrow> bool" where
  "is_alpha c = is_lower (to_lower c)"

text \<open>The pieces of the canonical string of a version, and the groups of its match.\<close>

definition core_char :: "char \<Rightarrow> bool" where
  "core_char c = (is_alnum c \<or> is_sep c \<or> c = CHR ''!'')"

definition str_epoch :: "Version \<Rightarrow> string" where
  "str_epoch v = (if epoch v > 0 then BigInt_String (epoch v) @ ''!'' else [])"

definition str_release :: "Version \<Rightarrow> string" where
  "str_release v = dotted (BigInt_String (hd (release v))) (map BigInt_String (tl (release v)))"

definition str_pre :: "Version \<Rightarrow> string" where
  "str_pre v = (if \<not> isNull (pre v) then letter (pre v) @ BigInt_String (number (pre v)) else [])"

definition str_post :: "Version \<Rightarrow> string" where
  "str_post v = (if \<not> isNull (post v) then ''.post'' @ BigInt_String (number (post v)) else [])"

definition str_dev :: "Version \<Rightarrow> string" where
  "str_dev v = (if \<not> isNull (dev v) then ''.dev'' @ BigInt_String (number (dev v)) else [])"

definition str_local :: "Version \<Rightarrow> string" where
  "str_local v = (if local v \<noteq> [] then ''+'' @ local v else [])"

definition str_core :: "Version \<Rightarrow> string" where
  "str_core v = str_epoch v @ str_release v @ str_pre v @ str_post v @ str_dev v"

definition canonical :: "Version \<Rightarrow> string" where
  "canonical v = str_core v @ str_local v"

definition caps_epoch :: "Version \<Rightarrow> caps" where
  "caps_epoch v = (if epoch v > 0 then [1 \<mapsto> BigInt_String (epoch v)] else Map.empty)"

definition caps_release :: "Version \<Rightarrow> caps" where
  "caps_release v = (caps_epoch v)(2 \<mapsto> str_release v)"

definition caps_pre :: "Version \<Rightarrow> caps" where
  "caps_pre v =
     (if \<not> isNull (pre v)
      then (caps_release v)(5 \<mapsto> letter (pre v), 4 \<mapsto> letter (pre v),
             6 \<mapsto> BigInt_String (number (pre v)), 3 \<mapsto> str_pre v)
      else caps_release v)"

definition caps_post :: "Version \<Rightarrow> caps" where
  "caps_post v =
     (if \<not> isNull (post v)
      then (caps_pre v)(9 \<mapsto> ''post'', 10 \<mapsto> BigInt_String (number (post v)), 7 \<mapsto> str_post v)
      else caps_pre v)"

definition caps_dev :: "Version \<Rightarrow> caps" where
  "caps_dev v =
     (if \<not> isNull (dev v)
      then (caps_post v)(12 \<mapsto> ''dev'', 13 \<mapsto> BigInt_String (number (dev v)), 11 \<mapsto> str_dev v)
      else caps_post v)"

definition caps_local :: "Version \<Rightarrow> caps" where
  "caps_local v = (if local v \<noteq> [] then (caps_dev v)(14 \<mapsto> local v) else caps_dev v)"

text \<open>
  The keys as values of a linear order: a release as the list of its numbers, a pre, post or
  dev component as a rank with a letter and a number, a local segment as a rank with the
  list of its tokens, a string token below every number. Tuples and lists are ordered
  lexicographically, a list that is a proper prefix of another one being the smaller.
\<close>

fun emb_release :: "part list \<Rightarrow> nat list" where
  "emb_release [] = []"
| "emb_release (BigInt n # ps) = n # emb_release ps"
| "emb_release (p # ps) = 0 # emb_release ps"

fun emb_ln :: "part \<Rightarrow> nat \<times> string \<times> nat" where
  "emb_ln NegativeInfinity = (0, [], 0)"
| "emb_ln (Parts [PartString l, BigInt n]) = (1, l, n)"
| "emb_ln Infinity = (2, [], 0)"
| "emb_ln p = (3, [], 0)"

fun emb_token :: "part \<Rightarrow> nat \<times> string \<times> nat" where
  "emb_token (PreString s) = (0, s, 0)"
| "emb_token (BigInt n) = (1, [], n)"
| "emb_token p = (2, [], 0)"

fun emb_local :: "part \<Rightarrow> nat \<times> (nat \<times> string \<times> nat) list" where
  "emb_local NegativeInfinity = (0, [])"
| "emb_local (Parts ps) = (1, map emb_token ps)"
| "emb_local p = (2, [])"

definition emb ::
  "key \<Rightarrow> nat \<times> nat list \<times> (nat \<times> string \<times> nat) \<times> (nat \<times> string \<times> nat) \<times>
     (nat \<times> string \<times> nat) \<times> nat \<times> (nat \<times> string \<times> nat) list" where
  "emb k = (k_epoch k, emb_release (k_release k), emb_ln (k_pre k), emb_ln (k_post k),
            emb_ln (k_dev k), emb_local (k_local k))"

text \<open>The shape of the keys that \<open>cmpkey\<close> builds.\<close>

definition normd :: "nat list \<Rightarrow> bool" where
  "normd ns = (ns = [] \<or> last ns \<noteq> 0)"

definition ln_key :: "part \<Rightarrow> bool" where
  "ln_key p = (p = NegativeInfinity \<or> p = Infinity \<or> (\<exists>l n. p = Parts [PartString l, BigInt n]))"

definition is_token :: "part \<Rightarrow> bool" where
  "is_token p = ((\<exists>n. p = BigInt n) \<or> (\<exists>s. p = PreString s))"

definition local_key :: "part \<Rightarrow> bool" where
  "local_key p = (p = NegativeInfinity \<or> (\<exists>ps. p = Parts ps \<and> list_all is_token ps))"

definition wf_key :: "key \<Rightarrow> bool" where
  "wf_key k = ((\<exists>ns. k_release k = map BigInt ns \<and> normd ns) \<and>
     ln_key (k_pre k) \<and> ln_key (k_post k) \<and> ln_key (k_dev k) \<and> local_key (k_local k))"

text \<open>
  The comparison in the words of the spec: equal canonical strings give 0; otherwise both
  releases are padded with zeros to the longer of the two lengths and the keys are compared
  component by component.
\<close>

definition Compare_spec :: "Version \<Rightarrow> Version \<Rightarrow> int option" where
  "Compare_spec a b =
     (case String a of
        None \<Rightarrow> None
      | Some s1 \<Rightarrow>
          (case String b of
             None \<Rightarrow> None
           | Some s2 \<Rightarrow>
               if s1 = s2 then Some 0
               else
                 (let n = max (length (k_release (key a))) (length (k_release (key b)))
                  in key_compare
                       ((key a)\<lparr>k_release := Padding (k_release (key a)) n Zero\<rparr>)
                       ((key b)\<lparr>k_release := Padding (k_release (key b)) n Zero\<rparr>))))"

text \<open>The versions that \<open>Public\<close> and \<open>BaseVersion\<close> of a version parse to.\<close>

definition public_of :: "Version \<Rightarrow> Version" where
  "public_of v =
     v\<lparr>local := [],
       key := cmpkey (epoch v) (release v) (pre v) (post v) (dev v) [],
       original := str_core v\<rparr>"

definition base_of :: "Version \<Rightarrow> Version" where
  "base_of v =
     v\<lparr>pre := \<lparr>letter = [], number = 0\<rparr>, post := \<lparr>letter = [], number = 0\<rparr>,
       dev := \<lparr>letter = [], number = 0\<rparr>, local := [],
       key := cmpkey (epoch v) (release v) \<lparr>letter = [], number = 0\<rparr> \<lparr>letter = [], number = 0\<rparr>
                \<lparr>letter = [], number = 0\<rparr> [],
       original := str_epoch v @ str_release v\<rparr>"

text \<open>
  The clauses \<open><\<close> and \<open>></\<close> in the words of the spec: the strict comparison of the public
  version of the candidate with the version of the clause, and the exclusions. A pre-release
  candidate with the base of a clause that is not a pre-release is not below it; a
  post-release candidate with the base of a clause that is not a post-release is not above
  it, and neither is a candidate with a local segment and the base of the clause.
\<close>

definition less_than_spec :: "Version \<Rightarrow> Version \<Rightarrow> bool option" where
  "less_than_spec v s =
     (case Public v of
        None \<Rightarrow> None
      | Some p \<Rightarrow>
     (case MustParse p of
        None \<Rightarrow> None
      | Some pv \<Rightarrow>
     (case LessThan pv s of
        None \<Rightarrow> None
      | Some lt \<Rightarrow>
     (case base_Equal v s of
        None \<Rightarrow> None
      | Some same_base \<Rightarrow>
          Some (lt \<and> \<not> (IsPreRelease v \<and> \<not> IsPreRelease s \<and> same_base))))))"

definition greater_than_spec :: "Version \<Rightarrow> Version \<Rightarrow> bool option" where
  "greater_than_spec v s =
     (case Public v of
        None \<Rightarrow> None
      | Some p \<Rightarrow>
     (case MustParse p of
        None \<Rightarrow> None
      | Some pv \<Rightarrow>
     (case GreaterThan pv s of
        None \<Rightarrow> None
      | Some gt \<Rightarrow>
     (case base_Equal v s of
        None \<Rightarrow> None
      | Some same_base \<Rightarrow>
          Some (gt \<and> \<not> (IsPostRelease v \<and> \<not> IsPostRelease s \<and> same_base) \<and>
                \<not> (local v \<noteq> [] \<and> same_base))))))"

text \<open>The key without its local component.\<close>

definition emb5 ::
  "key \<Rightarrow> nat \<times> nat list \<times> (nat \<times> string \<times> nat) \<times> (nat \<times> string \<times> nat) \<times> (nat \<times> string \<times> nat)" where
  "emb5 k = (k_epoch k, emb_release (k_release k), emb_ln (k_pre k), emb_ln (k_post k),
             emb_ln (k_dev k))"

definition is_ascii :: "char \<Rightarrow> bool" where
  "is_ascii c = (of_char c < (128::nat))"

section \<open>The matcher and the matching relation\<close>

lemma iter_Nil_iff: "iter P [] c c' = (c' = c)"
  by (auto elim: iter.cases intro: iter_Nil)

lemma rep_matches_iff:
  assumes f: "\<And>s c s' c'. ((s', c') \<in> set (f (s, c))) = (\<exists>w. s = w @ s' \<and> P w c c')"
  shows "length s \<le> n \<Longrightarrow>
    ((s', c') \<in> set (rep_matches f n (s, c))) = (\<exists>w. s = w @ s' \<and> iter P w c c')"
proof (induction n arbitrary: s c)
  case 0
  then show ?case by (auto simp: iter_Nil_iff)
next
  case (Suc n)
  show ?case
  proof
    assume "(s', c') \<in> set (rep_matches f (Suc n) (s, c))"
    then consider (stop) "s' = s" "c' = c"
      | (step) s1 c1 where "(s1, c1) \<in> set (f (s, c))" "length s1 < length s"
          "(s', c') \<in> set (rep_matches f n (s1, c1))"
      by (auto split: if_splits)
    then show "\<exists>w. s = w @ s' \<and> iter P w c c'"
    proof cases
      case stop
      then show ?thesis by (auto intro: iter_Nil)
    next
      case step
      from step(1) obtain u where u: "s = u @ s1" "P u c c1" using f by blast
      with step(2) have ne: "u \<noteq> []" by auto
      from step(2) Suc.prems have "length s1 \<le> n" by simp
      with Suc.IH step(3) obtain v where v: "s1 = v @ s'" "iter P v c1 c'" by blast
      from u v ne have "s = (u @ v) @ s'" "iter P (u @ v) c c'"
        by (auto intro: iter_Cons)
      then show ?thesis by blast
    qed
  next
    assume "\<exists>w. s = w @ s' \<and> iter P w c c'"
    then obtain w where w: "s = w @ s'" "iter P w c c'" by blast
    from w(2) show "(s', c') \<in> set (rep_matches f (Suc n) (s, c))"
    proof cases
      case iter_Nil
      with w show ?thesis by simp
    next
      case (iter_Cons u c1 v)
      with w have 1: "(v @ s', c1) \<in> set (f (s, c))" using f by auto
      from iter_Cons w have 3: "length (v @ s') < length s" by auto
      with Suc.prems have "length (v @ s') \<le> n" by linarith
      with 3 have 2: "length (v @ s') < length s" "length (v @ s') \<le> n" by blast+
      with Suc.IH iter_Cons have "(s', c') \<in> set (rep_matches f n (v @ s', c1))" by blast
      with 1 2 show ?thesis by force
    qed
  qed
qed


theorem set_matches:
  "((s', c') \<in> set (matches r (s, c))) = (\<exists>w. s = w @ s' \<and> parses r w c c')"
proof (induction r arbitrary: s c s' c')
  case Eps
  then show ?case by auto
next
  case (Atom p)
  then show ?case by (cases s) auto
next
  case (Cat r1 r2)
  show ?case
  proof
    assume "(s', c') \<in> set (matches (Cat r1 r2) (s, c))"
    then have "\<exists>y\<in>set (matches r1 (s, c)). (s', c') \<in> set (matches r2 y)" by simp
    then obtain s1 c1 where 1: "(s1, c1) \<in> set (matches r1 (s, c))"
      and 2: "(s', c') \<in> set (matches r2 (s1, c1))" by (metis prod.collapse)
    from 1 Cat.IH(1) obtain u where u: "s = u @ s1" "parses r1 u c c1" by blast
    from 2 Cat.IH(2) obtain v where v: "s1 = v @ s'" "parses r2 v c1 c'" by blast
    from u v have "s = (u @ v) @ s'" "parses (Cat r1 r2) (u @ v) c c'" by auto
    then show "\<exists>w. s = w @ s' \<and> parses (Cat r1 r2) w c c'" by blast
  next
    assume "\<exists>w. s = w @ s' \<and> parses (Cat r1 r2) w c c'"
    then obtain u v c1 where "s = (u @ v) @ s'" "parses r1 u c c1" "parses r2 v c1 c'" by auto
    then have "(v @ s', c1) \<in> set (matches r1 (s, c))" "(s', c') \<in> set (matches r2 (v @ s', c1))"
      using Cat.IH by auto
    then have "\<exists>y\<in>set (matches r1 (s, c)). (s', c') \<in> set (matches r2 y)" by blast
    then show "(s', c') \<in> set (matches (Cat r1 r2) (s, c))" by simp
  qed
next
  case (Alt r1 r2)
  then show ?case by auto
next
  case (Rep r)
  have "\<And>s c s' c'. ((s', c') \<in> set (matches r (s, c))) = (\<exists>w. s = w @ s' \<and> parses r w c c')"
    using Rep.IH by blast
  from rep_matches_iff[of "matches r" "parses r", OF this, of s "length s" s' c' c]
  show ?case by simp
next
  case (Grp i r)
  show ?case
  proof
    assume "(s', c') \<in> set (matches (Grp i r) (s, c))"
    then have "\<exists>y\<in>set (matches r (s, c)).
        (s', c') = (fst y, (snd y)(i \<mapsto> take (length s - length (fst y)) s))"
      by (simp add: image_iff)
    then obtain c1 where 1: "(s', c1) \<in> set (matches r (s, c))"
      and 2: "c' = c1(i \<mapsto> take (length s - length s') s)" by (metis prod.collapse prod.inject)
    from 1 Grp.IH obtain w where "s = w @ s'" "parses r w c c1" by blast
    with 2 show "\<exists>w. s = w @ s' \<and> parses (Grp i r) w c c'" by auto
  next
    assume "\<exists>w. s = w @ s' \<and> parses (Grp i r) w c c'"
    then obtain w c1 where w: "s = w @ s'" "parses r w c c1" "c' = c1(i \<mapsto> w)" by auto
    then have "(s', c1) \<in> set (matches r (s, c))" using Grp.IH by blast
    moreover from w have "(s', c') = (fst (s', c1), (snd (s', c1))(i \<mapsto> take (length s - length (fst (s', c1))) s))"
      by simp
    ultimately have "\<exists>y\<in>set (matches r (s, c)).
        (s', c') = (fst y, (snd y)(i \<mapsto> take (length s - length (fst y)) s))" by blast
    then show "(s', c') \<in> set (matches (Grp i r) (s, c))" by (simp add: image_iff)
  qed
qed

lemma find_Some_set: "find P xs = Some x \<Longrightarrow> x \<in> set xs \<and> P x"
  by (induction xs) (auto split: if_splits)

lemma FindStringSubmatch_Some:
  "FindStringSubmatch r s = Some c \<Longrightarrow> parses r s Map.empty c"
proof -
  assume "FindStringSubmatch r s = Some c"
  then obtain y where y: "find (\<lambda>y. fst y = []) (matches r (s, Map.empty)) = Some y" "snd y = c"
    unfolding FindStringSubmatch_def by blast
  from find_Some_set[OF y(1)] have "y \<in> set (matches r (s, Map.empty))" "fst y = []" by blast+
  with y(2) have "([], c) \<in> set (matches r (s, Map.empty))" by (metis prod.collapse)
  then show ?thesis by (simp add: set_matches)
qed

lemma FindStringSubmatch_None:
  "(FindStringSubmatch r s = None) = (\<forall>c. \<not> parses r s Map.empty c)"
proof -
  have "(\<exists>y\<in>set (matches r (s, Map.empty)). fst y = []) = (\<exists>c. parses r s Map.empty c)"
  proof
    assume "\<exists>y\<in>set (matches r (s, Map.empty)). fst y = []"
    then obtain c where "([], c) \<in> set (matches r (s, Map.empty))"
      by (metis prod.collapse)
    then show "\<exists>c. parses r s Map.empty c" by (simp add: set_matches) blast
  next
    assume "\<exists>c. parses r s Map.empty c"
    then obtain c where "parses r s Map.empty c" by blast
    then have "([], c) \<in> set (matches r (s, Map.empty))" by (simp add: set_matches)
    then show "\<exists>y\<in>set (matches r (s, Map.empty)). fst y = []" by (metis fst_conv)
  qed
  moreover have "(FindStringSubmatch r s = None) = (\<not> (\<exists>y\<in>set (matches r (s, Map.empty)). fst y = []))"
    unfolding FindStringSubmatch_def by (simp only: map_option_is_None find_None_iff) blast
  ultimately show ?thesis by blast
qed

lemma FindStringSubmatch_unique:
  assumes "parses r s Map.empty c0" and "\<And>c. parses r s Map.empty c \<Longrightarrow> c = c0"
  shows "FindStringSubmatch r s = Some c0"
proof -
  from assms(1) have "FindStringSubmatch r s \<noteq> None"
    by (auto simp: FindStringSubmatch_None)
  then obtain c where c: "FindStringSubmatch r s = Some c" by auto
  with assms(2) FindStringSubmatch_Some show ?thesis by blast
qed

section \<open>Languages of the building blocks\<close>

lemma iter_plain:
  assumes "\<And>u c c'. P u c c' = (Q u \<and> c' = c)"
  shows "iter P w c c' = (c' = c \<and> (\<exists>us. w = concat us \<and> list_all (\<lambda>u. Q u \<and> u \<noteq> []) us))"
proof
  assume "iter P w c c'"
  then show "c' = c \<and> (\<exists>us. w = concat us \<and> list_all (\<lambda>u. Q u \<and> u \<noteq> []) us)"
  proof (induction rule: iter.induct)
    case (iter_Nil c)
    have "[] = concat ([]::string list) \<and> list_all (\<lambda>u. Q u \<and> u \<noteq> []) []" by simp
    then show ?case by blast
  next
    case (iter_Cons u c c1 v c2)
    then obtain us where us: "v = concat us" "list_all (\<lambda>u. Q u \<and> u \<noteq> []) us" by blast
    from iter_Cons assms have "Q u" "c1 = c" by auto
    with iter_Cons us have "u @ v = concat (u # us) \<and> list_all (\<lambda>u. Q u \<and> u \<noteq> []) (u # us)"
      by simp
    with iter_Cons \<open>c1 = c\<close> show ?case by blast
  qed
next
  assume "c' = c \<and> (\<exists>us. w = concat us \<and> list_all (\<lambda>u. Q u \<and> u \<noteq> []) us)"
  then obtain us where us: "c' = c" "w = concat us" "list_all (\<lambda>u. Q u \<and> u \<noteq> []) us" by blast
  from us(3) have "iter P (concat us) c c"
  proof (induction us)
    case Nil
    then show ?case by (simp add: iter_Nil)
  next
    case (Cons u us)
    from Cons.prems have "Q u" and ne: "u \<noteq> []" and "list_all (\<lambda>u. Q u \<and> u \<noteq> []) us" by simp_all
    with Cons.IH have it: "iter P (concat us) c c" by blast
    from \<open>Q u\<close> have "P u c c" by (simp add: assms)
    from iter_Cons[OF this ne it] show ?case by simp
  qed
  with us show "iter P w c c'" by simp
qed

lemma concat_singletons:
  "(\<exists>us. w = concat us \<and> list_all (\<lambda>u. (\<exists>a. u = [a] \<and> p a) \<and> u \<noteq> []) us) = list_all p w"
proof
  assume "\<exists>us. w = concat us \<and> list_all (\<lambda>u. (\<exists>a. u = [a] \<and> p a) \<and> u \<noteq> []) us"
  then obtain us where "w = concat us" "list_all (\<lambda>u. (\<exists>a. u = [a] \<and> p a) \<and> u \<noteq> []) us" by blast
  then show "list_all p w" by (induction us arbitrary: w) auto
next
  assume "list_all p w"
  then have "w = concat (map (\<lambda>a. [a]) w) \<and>
      list_all (\<lambda>u. (\<exists>a. u = [a] \<and> p a) \<and> u \<noteq> []) (map (\<lambda>a. [a]) w)"
    by (induction w) auto
  then show "\<exists>us. w = concat us \<and> list_all (\<lambda>u. (\<exists>a. u = [a] \<and> p a) \<and> u \<noteq> []) us" by blast
qed

lemma iter_Atom: "iter (parses (Atom p)) w c c' = (list_all p w \<and> c' = c)"
proof -
  have "iter (parses (Atom p)) w c c' =
      (c' = c \<and> (\<exists>us. w = concat us \<and> list_all (\<lambda>u. (\<exists>a. u = [a] \<and> p a) \<and> u \<noteq> []) us))"
    by (rule iter_plain) auto
  then show ?thesis by (simp only: concat_singletons) blast
qed

lemma parses_Rep_Atom: "parses (Rep (Atom p)) w c c' = (list_all p w \<and> c' = c)"
  by (simp add: iter_Atom)

lemma parses_Cat_Atom:
  "parses (Cat (Atom p) r) w c c' = (\<exists>a v. w = a # v \<and> p a \<and> parses r v c c')"
proof
  assume "parses (Cat (Atom p) r) w c c'"
  then obtain u v c1 where "w = u @ v" "parses (Atom p) u c c1" "parses r v c1 c'" by auto
  then show "\<exists>a v. w = a # v \<and> p a \<and> parses r v c c'" by auto
next
  assume "\<exists>a v. w = a # v \<and> p a \<and> parses r v c c'"
  then obtain a v where "w = [a] @ v" "parses (Atom p) [a] c c" "parses r v c c'" by auto
  then show "parses (Cat (Atom p) r) w c c'" unfolding parses.simps(3) by blast
qed

lemma parses_Plus_Atom: "parses (Plus (Atom p)) w c c' = (w \<noteq> [] \<and> list_all p w \<and> c' = c)"
proof -
  have "parses (Plus (Atom p)) w c c' =
      (\<exists>a v. w = a # v \<and> p a \<and> list_all p v \<and> c' = c)"
    unfolding Plus_def by (simp only: parses_Cat_Atom parses_Rep_Atom)
  also have "\<dots> = (w \<noteq> [] \<and> list_all p w \<and> c' = c)" by (cases w) auto
  finally show ?thesis .
qed

lemma parses_Digits: "parses Digits w c c' = (is_number w \<and> c' = c)"
  by (simp add: Digits_def parses_Plus_Atom is_number_def)

lemma parses_Opt: "parses (Opt r) w c c' = (parses r w c c' \<or> w = [] \<and> c' = c)"
  by (simp add: Opt_def)

lemma parses_Lit: "parses (Lit a) w c c' = (w = [a] \<and> c' = c)"
  by (auto simp: Lit_def)

lemma parses_LitI: "parses (LitI a) w c c' = (\<exists>x. w = [x] \<and> to_lower x = a \<and> c' = c)"
  by (auto simp: LitI_def)

lemma parses_Word_Lit: "u \<noteq> [] \<Longrightarrow> parses (Word Lit u) w c c' = (w = u \<and> c' = c)"
  by (induction Lit u arbitrary: w rule: Word.induct) (auto simp: parses_Lit)

lemma parses_Word_LitI: "u \<noteq> [] \<Longrightarrow> parses (Word LitI u) w c c' = (ToLower w = u \<and> c' = c)"
proof (induction LitI u arbitrary: w rule: Word.induct)
  case 1
  then show ?case by simp
next
  case (2 a)
  then show ?case by (auto simp: parses_LitI ToLower_def)
next
  case (3 a b s)
  then have IH: "\<And>w. parses (Word LitI (b # s)) w c c' = (ToLower w = b # s \<and> c' = c)" by simp
  have "parses (Word LitI (a # b # s)) w c c' =
      (\<exists>x v. w = x # v \<and> to_lower x = a \<and> parses (Word LitI (b # s)) v c c')"
    unfolding Word.simps LitI_def by (simp only: parses_Cat_Atom)
  also have "\<dots> = (ToLower w = a # b # s \<and> c' = c)"
    by (cases w) (auto simp: IH ToLower_def)
  finally show ?case .
qed

lemma parses_Alts: "rs \<noteq> [] \<Longrightarrow> parses (Alts rs) w c c' = (\<exists>r\<in>set rs. parses r w c c')"
  by (induction rs rule: Alts.induct) auto

lemma parses_Alts_words:
  assumes "ws \<noteq> []" "[] \<notin> set ws"
  shows "parses (Alts (map (Word LitI) ws)) w c c' = (ToLower w \<in> set ws \<and> c' = c)"
proof -
  have 1: "parses (Word LitI r) w c c' = (ToLower w = r \<and> c' = c)" if "r \<in> set ws" for r
    using that assms(2) parses_Word_LitI[of r w c c'] by (cases "r = []") auto
  have "parses (Alts (map (Word LitI) ws)) w c c' = (\<exists>r\<in>set ws. parses (Word LitI r) w c c')"
    using assms(1) by (simp add: parses_Alts)
  also have "\<dots> = (ToLower w \<in> set ws \<and> c' = c)" using 1 by blast
  finally show ?thesis .
qed

lemma parses_Alts_words_Lit:
  assumes "ws \<noteq> []" "[] \<notin> set ws"
  shows "parses (Alts (map (Word Lit) ws)) w c c' = (w \<in> set ws \<and> c' = c)"
proof -
  have 1: "parses (Word Lit r) w c c' = (w = r \<and> c' = c)" if "r \<in> set ws" for r
    using that assms(2) parses_Word_Lit[of r w c c'] by (cases "r = []") auto
  have "parses (Alts (map (Word Lit) ws)) w c c' = (\<exists>r\<in>set ws. parses (Word Lit r) w c c')"
    using assms(1) by (simp add: parses_Alts)
  also have "\<dots> = (w \<in> set ws \<and> c' = c)" using 1 by blast
  finally show ?thesis .
qed

lemma iter_grps: "iter P w c c' \<Longrightarrow> (\<And>u c c'. P u c c' \<Longrightarrow> c' i = c i) \<Longrightarrow> c' i = c i"
  by (induction rule: iter.induct) auto

lemma parses_grps: "parses r w c c' \<Longrightarrow> i \<notin> grps r \<Longrightarrow> c' i = c i"
proof (induction r arbitrary: w c c')
  case (Rep r)
  then show ?case using iter_grps[of "parses r" w c c' i] by auto
next
  case (Cat r1 r2)
  from Cat.prems obtain u v c1 where "parses r1 u c c1" "parses r2 v c1 c'"
    and "i \<notin> grps r1" "i \<notin> grps r2" by auto
  with Cat.IH have "c1 i = c i" "c' i = c1 i" by blast+
  then show ?case by simp
qed auto

section \<open>The languages of the version pattern\<close>

lemma opt_sep_iff: "opt_sep s = (s = [] \<or> (\<exists>x. s = [x] \<and> is_sep x))"
  by (cases s) (auto simp: opt_sep_def)

lemma parses_Opt_sep: "parses (Opt (Atom is_sep)) w c c' = (opt_sep w \<and> c' = c)"
  by (auto simp: parses_Opt opt_sep_iff)

lemma parses_Opt_Grp_Digits:
  "parses (Opt (Grp g Digits)) w c c' =
     (list_all is_digit w \<and> c' = (if w = [] then c else c(g \<mapsto> w)))"
  by (auto simp: parses_Opt parses_Digits is_number_def)

lemma parses_segment:
  "parses (Cat (Opt (Atom is_sep)) (Cat L (Cat (Opt (Atom is_sep)) (Opt (Grp g Digits))))) w c c' =
     (\<exists>s1 l s2 n c1. w = s1 @ l @ s2 @ n \<and> opt_sep s1 \<and> parses L l c c1 \<and> opt_sep s2 \<and>
        list_all is_digit n \<and> c' = (if n = [] then c1 else c1(g \<mapsto> n)))"
  (is "?lhs = ?rhs")
proof
  assume ?lhs
  then obtain s1 v1 ca where 1: "w = s1 @ v1" "opt_sep s1" "ca = c"
    and "parses (Cat L (Cat (Opt (Atom is_sep)) (Opt (Grp g Digits)))) v1 ca c'"
    unfolding parses.simps(3)[of "Opt (Atom is_sep)"] parses_Opt_sep by blast
  then obtain l v2 c1 where 2: "v1 = l @ v2" "parses L l c c1"
    and "parses (Cat (Opt (Atom is_sep)) (Opt (Grp g Digits))) v2 c1 c'"
    unfolding parses.simps(3)[of L] by blast
  then obtain s2 n where 3: "v2 = s2 @ n" "opt_sep s2" "list_all is_digit n"
    "c' = (if n = [] then c1 else c1(g \<mapsto> n))"
    unfolding parses.simps(3)[of "Opt (Atom is_sep)"] parses_Opt_sep parses_Opt_Grp_Digits by blast
  from 1 2 3 show ?rhs by blast
next
  assume ?rhs
  then obtain s1 l s2 n c1 where r: "w = s1 @ l @ s2 @ n" "opt_sep s1" "parses L l c c1"
    "opt_sep s2" "list_all is_digit n" "c' = (if n = [] then c1 else c1(g \<mapsto> n))" by blast
  then have "parses (Cat (Opt (Atom is_sep)) (Opt (Grp g Digits))) (s2 @ n) c1 c'"
    unfolding parses.simps(3)[of "Opt (Atom is_sep)"] parses_Opt_sep parses_Opt_Grp_Digits by blast
  with r(3) have "parses (Cat L (Cat (Opt (Atom is_sep)) (Opt (Grp g Digits)))) (l @ s2 @ n) c c'"
    unfolding parses.simps(3)[of L] by blast
  with r(1,2) show ?lhs
    unfolding parses.simps(3)[of "Opt (Atom is_sep)" "Cat L _"] parses_Opt_sep by blast
qed

lemma parses_epoch_re:
  "parses epoch_re w c c' =
     (w = [] \<and> c' = c \<or> (\<exists>d. is_number d \<and> w = d @ ''!'' \<and> c' = c(1 \<mapsto> d)))"
  unfolding epoch_re_def parses_Opt parses.simps(3) parses.simps(6) parses_Digits parses_Lit
  by blast

lemma iter_dot_Digits:
  "iter (parses (Cat (Lit CHR ''.'') Digits)) w c c' =
     (c' = c \<and> (\<exists>xs. w = concat (map ((#) CHR ''.'') xs) \<and> list_all is_number xs))"
proof -
  have 1: "parses (Cat (Lit CHR ''.'') Digits) u c c' =
      ((\<exists>d. u = CHR ''.'' # d \<and> is_number d) \<and> c' = c)" for u c c'
    unfolding parses.simps(3) parses_Lit parses_Digits by auto
  have 2: "(\<exists>us. w = concat us \<and> list_all (\<lambda>u. (\<exists>d. u = CHR ''.'' # d \<and> is_number d) \<and> u \<noteq> []) us)
      = (\<exists>xs. w = concat (map ((#) CHR ''.'') xs) \<and> list_all is_number xs)"
  proof
    assume "\<exists>us. w = concat us \<and> list_all (\<lambda>u. (\<exists>d. u = CHR ''.'' # d \<and> is_number d) \<and> u \<noteq> []) us"
    then obtain us where "w = concat us"
      "list_all (\<lambda>u. (\<exists>d. u = CHR ''.'' # d \<and> is_number d) \<and> u \<noteq> []) us" by blast
    then have "w = concat (map ((#) CHR ''.'') (map tl us)) \<and> list_all is_number (map tl us)"
      by (induction us arbitrary: w) auto
    then show "\<exists>xs. w = concat (map ((#) CHR ''.'') xs) \<and> list_all is_number xs" by blast
  next
    assume "\<exists>xs. w = concat (map ((#) CHR ''.'') xs) \<and> list_all is_number xs"
    then obtain xs where "w = concat (map ((#) CHR ''.'') xs)" "list_all is_number xs" by blast
    then have "w = concat (map ((#) CHR ''.'') xs) \<and>
        list_all (\<lambda>u. (\<exists>d. u = CHR ''.'' # d \<and> is_number d) \<and> u \<noteq> []) (map ((#) CHR ''.'') xs)"
      by (induction xs arbitrary: w) auto
    then show "\<exists>us. w = concat us \<and>
        list_all (\<lambda>u. (\<exists>d. u = CHR ''.'' # d \<and> is_number d) \<and> u \<noteq> []) us" by blast
  qed
  from iter_plain[of "parses (Cat (Lit CHR ''.'') Digits)", OF 1] 2 show ?thesis by simp
qed

lemma parses_release_re:
  "parses release_re w c c' =
     (\<exists>x xs. w = dotted x xs \<and> is_number x \<and> list_all is_number xs \<and> c' = c(2 \<mapsto> w))"
  unfolding release_re_def parses.simps(6) parses.simps(3) parses.simps(5) parses_Digits
    iter_dot_Digits dotted_def
  by blast

lemma pre_words_ok: "pre_words \<noteq> [] \<and> [] \<notin> set pre_words"
  by (simp add: pre_words_def)

lemma post_words_ok: "post_words \<noteq> [] \<and> [] \<notin> set post_words"
  by (simp add: post_words_def)

lemma parses_Grp_segment:
  assumes L: "\<And>l c c1. parses L l c c1 = (Q l \<and> c1 = U l c)"
  shows "parses (Grp g0 (Cat (Opt (Atom is_sep)) (Cat L (Cat (Opt (Atom is_sep)) (Opt (Grp g Digits))))))
      w c c' =
     (\<exists>s1 l s2 n. w = s1 @ l @ s2 @ n \<and> opt_sep s1 \<and> Q l \<and> opt_sep s2 \<and> list_all is_digit n \<and>
         c' = (if n = [] then U l c else (U l c)(g \<mapsto> n))(g0 \<mapsto> w))"
  (is "?lhs = ?rhs")
proof
  assume ?lhs
  then obtain c2 where "parses (Cat (Opt (Atom is_sep)) (Cat L (Cat (Opt (Atom is_sep))
      (Opt (Grp g Digits))))) w c c2" and c': "c' = c2(g0 \<mapsto> w)"
    unfolding parses.simps(6)[of g0] by blast
  then obtain s1 l s2 n c1 where l: "w = s1 @ l @ s2 @ n" "opt_sep s1" "parses L l c c1" "opt_sep s2"
    "list_all is_digit n" "c2 = (if n = [] then c1 else c1(g \<mapsto> n))"
    unfolding parses_segment by blast
  from l(3) have "Q l" "c1 = U l c" by (simp_all add: L)
  with l c' have "w = s1 @ l @ s2 @ n \<and> opt_sep s1 \<and> Q l \<and> opt_sep s2 \<and> list_all is_digit n \<and>
         c' = (if n = [] then U l c else (U l c)(g \<mapsto> n))(g0 \<mapsto> w)" by simp
  then show ?rhs by blast
next
  assume ?rhs
  then obtain s1 l s2 n where r: "w = s1 @ l @ s2 @ n" "opt_sep s1" "Q l" "opt_sep s2"
    "list_all is_digit n" "c' = (if n = [] then U l c else (U l c)(g \<mapsto> n))(g0 \<mapsto> w)" by blast
  from r(3) have "parses L l c (U l c)" by (simp add: L)
  with r(1,2,4,5) have "w = s1 @ l @ s2 @ n \<and> opt_sep s1 \<and> parses L l c (U l c) \<and> opt_sep s2 \<and>
      list_all is_digit n \<and>
      (if n = [] then U l c else (U l c)(g \<mapsto> n)) = (if n = [] then U l c else (U l c)(g \<mapsto> n))"
    by simp
  then have "parses (Cat (Opt (Atom is_sep)) (Cat L (Cat (Opt (Atom is_sep))
      (Opt (Grp g Digits))))) w c (if n = [] then U l c else (U l c)(g \<mapsto> n))"
    unfolding parses_segment by blast
  with r(6) show ?lhs unfolding parses.simps(6)[of g0] by blast
qed

lemma parses_pre_re:
  "parses pre_re w c c' =
     (w = [] \<and> c' = c \<or>
      (\<exists>s1 l s2 n. w = s1 @ l @ s2 @ n \<and> opt_sep s1 \<and> ToLower l \<in> set pre_words \<and> opt_sep s2 \<and>
         list_all is_digit n \<and>
         c' = (if n = [] then c(5 \<mapsto> l, 4 \<mapsto> l) else c(5 \<mapsto> l, 4 \<mapsto> l, 6 \<mapsto> n))(3 \<mapsto> w)))"
proof -
  have L: "parses (Grp 4 (Grp 5 (Alts (map (Word LitI) pre_words)))) l c c1 =
      (ToLower l \<in> set pre_words \<and> c1 = c(5 \<mapsto> l, 4 \<mapsto> l))" for l c c1
    using pre_words_ok by (auto simp: parses_Alts_words)
  show ?thesis
    unfolding pre_re_def parses_Opt parses_Grp_segment[of _ "\<lambda>l. ToLower l \<in> set pre_words"
        "\<lambda>l c. c(5 \<mapsto> l, 4 \<mapsto> l)", OF L]
    by blast
qed

lemma parses_dev_re:
  "parses dev_re w c c' =
     (w = [] \<and> c' = c \<or>
      (\<exists>s1 l s2 n. w = s1 @ l @ s2 @ n \<and> opt_sep s1 \<and> ToLower l = ''dev'' \<and> opt_sep s2 \<and>
         list_all is_digit n \<and>
         c' = (if n = [] then c(12 \<mapsto> l) else c(12 \<mapsto> l, 13 \<mapsto> n))(11 \<mapsto> w)))"
proof -
  have L: "parses (Grp 12 (Word LitI ''dev'')) l c c1 =
      (ToLower l = ''dev'' \<and> c1 = c(12 \<mapsto> l))" for l c c1
  proof -
    have *: "parses (Word LitI ''dev'') l c c2 = (ToLower l = ''dev'' \<and> c2 = c)" for c2
      by (rule parses_Word_LitI) simp
    show ?thesis unfolding parses.simps(6) * by blast
  qed
  show ?thesis
    unfolding dev_re_def parses_Opt parses_Grp_segment[of _ "\<lambda>l. ToLower l = ''dev''"
        "\<lambda>l c. c(12 \<mapsto> l)", OF L]
    by blast
qed

lemma parses_post_re:
  "parses post_re w c c' =
     (w = [] \<and> c' = c \<or>
      (\<exists>n. w = CHR ''-'' # n \<and> is_number n \<and> c' = c(8 \<mapsto> n, 7 \<mapsto> w)) \<or>
      (\<exists>s1 l s2 n. w = s1 @ l @ s2 @ n \<and> opt_sep s1 \<and> ToLower l \<in> set post_words \<and> opt_sep s2 \<and>
         list_all is_digit n \<and>
         c' = (if n = [] then c(9 \<mapsto> l) else c(9 \<mapsto> l, 10 \<mapsto> n))(7 \<mapsto> w)))"
proof -
  have L: "parses (Grp 9 (Alts (map (Word LitI) post_words))) l c c1 =
      (ToLower l \<in> set post_words \<and> c1 = c(9 \<mapsto> l))" for l c c1
    using post_words_ok by (auto simp: parses_Alts_words)
  have D: "parses (Cat (Lit CHR ''-'') (Grp 8 Digits)) w c c1 =
      (\<exists>n. w = CHR ''-'' # n \<and> is_number n \<and> c1 = c(8 \<mapsto> n))" for c1
    unfolding parses.simps(3) parses_Lit parses.simps(6) parses_Digits by auto
  have S: "parses (Cat (Opt (Atom is_sep)) (Cat (Grp 9 (Alts (map (Word LitI) post_words)))
        (Cat (Opt (Atom is_sep)) (Opt (Grp 10 Digits))))) w c c1 =
      (\<exists>s1 l s2 n. w = s1 @ l @ s2 @ n \<and> opt_sep s1 \<and> ToLower l \<in> set post_words \<and> opt_sep s2 \<and>
         list_all is_digit n \<and> c1 = (if n = [] then c(9 \<mapsto> l) else c(9 \<mapsto> l, 10 \<mapsto> n)))" for c1
    unfolding parses_segment L by blast
  show ?thesis
    unfolding post_re_def parses_Opt parses.simps(6)[of 7] parses.simps(4) D S
    by blast
qed

lemma parses_CatD:
  "parses (Cat r1 r2) w c c' \<Longrightarrow> \<exists>u v c1. w = u @ v \<and> parses r1 u c c1 \<and> parses r2 v c1 c'"
  by simp

lemma parses_CatI: "parses r1 u c c1 \<Longrightarrow> parses r2 v c1 c' \<Longrightarrow> parses (Cat r1 r2) (u @ v) c c'"
  by auto

lemma parses_Opt_v: "parses (Opt (LitI CHR ''v'')) w c c' = (opt_v w \<and> c' = c)"
  by (cases w) (auto simp: parses_Opt parses_LitI opt_v_def)

lemma iter_sep_word:
  "iter (parses (Cat (Atom is_sep) (Plus (Atom is_alnum)))) v c c' =
     (c' = c \<and> (\<exists>us. v = concat us \<and> list_all (\<lambda>u. \<exists>d y. u = d # y \<and> is_sep d \<and> is_word y) us))"
proof -
  have 1: "parses (Cat (Atom is_sep) (Plus (Atom is_alnum))) u c c' =
      ((\<exists>d y. u = d # y \<and> is_sep d \<and> is_word y) \<and> c' = c)" for u c c'
    unfolding parses_Cat_Atom parses_Plus_Atom is_word_def by blast
  have 2: "list_all (\<lambda>u. (\<exists>d y. u = d # y \<and> is_sep d \<and> is_word y) \<and> u \<noteq> []) us =
      list_all (\<lambda>u. \<exists>d y. u = d # y \<and> is_sep d \<and> is_word y) us" for us
    by (induction us) auto
  show ?thesis
    by (simp only: iter_plain[of "parses (Cat (Atom is_sep) (Plus (Atom is_alnum)))", OF 1] 2)
qed

lemma parses_local_body:
  "parses (Cat (Plus (Atom is_alnum)) (Rep (Cat (Atom is_sep) (Plus (Atom is_alnum))))) l c c' =
     (is_local l \<and> c' = c)"
  (is "?lhs = ?rhs")
proof
  assume ?lhs
  from parses_CatD[OF this] obtain x v c1 where 1: "l = x @ v" "parses (Plus (Atom is_alnum)) x c c1"
    "parses (Rep (Cat (Atom is_sep) (Plus (Atom is_alnum)))) v c1 c'" by blast
  from 1(2) have x: "is_word x" "c1 = c" by (simp_all add: parses_Plus_Atom is_word_def)
  from 1(3) have "iter (parses (Cat (Atom is_sep) (Plus (Atom is_alnum)))) v c1 c'" by simp
  then obtain us where us: "c' = c1" "v = concat us"
    "list_all (\<lambda>u. \<exists>d y. u = d # y \<and> is_sep d \<and> is_word y) us"
    unfolding iter_sep_word by blast
  from 1(1) x us have "is_local l" unfolding is_local_def by blast
  with x us show ?rhs by simp
next
  assume ?rhs
  then obtain x us where l: "l = x @ concat us" "is_word x"
    "list_all (\<lambda>u. \<exists>d y. u = d # y \<and> is_sep d \<and> is_word y) us" "c' = c"
    unfolding is_local_def by blast
  from l(2) have 1: "parses (Plus (Atom is_alnum)) x c c" by (simp add: parses_Plus_Atom is_word_def)
  from l(3) have "iter (parses (Cat (Atom is_sep) (Plus (Atom is_alnum)))) (concat us) c c"
    unfolding iter_sep_word by blast
  then have 2: "parses (Rep (Cat (Atom is_sep) (Plus (Atom is_alnum)))) (concat us) c c" by simp
  from parses_CatI[OF 1 2] l show ?lhs by simp
qed

lemma parses_local_re:
  "parses local_re w c c' =
     (w = [] \<and> c' = c \<or> (\<exists>l. w = CHR ''+'' # l \<and> is_local l \<and> c' = c(14 \<mapsto> l)))"
proof -
  have "parses (Cat (Lit CHR ''+'') (Grp 14 (Cat (Plus (Atom is_alnum))
      (Rep (Cat (Atom is_sep) (Plus (Atom is_alnum))))))) w c c' =
     (\<exists>l. w = CHR ''+'' # l \<and> is_local l \<and> c' = c(14 \<mapsto> l))"
    unfolding parses.simps(3)[of "Lit _"] parses_Lit parses.simps(6)[of 14] parses_local_body
    by auto
  then show ?thesis unfolding local_re_def parses_Opt by blast
qed

lemma parses_Cat5:
  "parses (Cat r1 (Cat r2 (Cat r3 (Cat r4 r5)))) w c c' =
     (\<exists>w1 w2 w3 w4 w5 c1 c2 c3 c4. w = w1 @ w2 @ w3 @ w4 @ w5 \<and> parses r1 w1 c c1 \<and>
        parses r2 w2 c1 c2 \<and> parses r3 w3 c2 c3 \<and> parses r4 w4 c3 c4 \<and> parses r5 w5 c4 c')"
  (is "?lhs = ?rhs")
proof
  assume ?lhs
  from parses_CatD[OF this] obtain w1 v1 c1 where 1: "w = w1 @ v1" "parses r1 w1 c c1"
    "parses (Cat r2 (Cat r3 (Cat r4 r5))) v1 c1 c'" by blast
  from parses_CatD[OF 1(3)] obtain w2 v2 c2 where 2: "v1 = w2 @ v2" "parses r2 w2 c1 c2"
    "parses (Cat r3 (Cat r4 r5)) v2 c2 c'" by blast
  from parses_CatD[OF 2(3)] obtain w3 v3 c3 where 3: "v2 = w3 @ v3" "parses r3 w3 c2 c3"
    "parses (Cat r4 r5) v3 c3 c'" by blast
  from parses_CatD[OF 3(3)] obtain w4 w5 c4 where 4: "v3 = w4 @ w5" "parses r4 w4 c3 c4"
    "parses r5 w5 c4 c'" by blast
  from 1 2 3 4 have "w = w1 @ w2 @ w3 @ w4 @ w5 \<and> parses r1 w1 c c1 \<and>
        parses r2 w2 c1 c2 \<and> parses r3 w3 c2 c3 \<and> parses r4 w4 c3 c4 \<and> parses r5 w5 c4 c'" by simp
  then show ?rhs by blast
next
  assume ?rhs
  then obtain w1 w2 w3 w4 w5 c1 c2 c3 c4 where r: "w = w1 @ w2 @ w3 @ w4 @ w5" "parses r1 w1 c c1"
    "parses r2 w2 c1 c2" "parses r3 w3 c2 c3" "parses r4 w4 c3 c4" "parses r5 w5 c4 c'" by blast
  from parses_CatI[OF r(2) parses_CatI[OF r(3) parses_CatI[OF r(4) parses_CatI[OF r(5) r(6)]]]] r(1)
  show ?lhs by simp
qed

lemma parses_versionRegex:
  "parses versionRegex s c0 c =
     (\<exists>w0 wv wc wl w9 c5. s = w0 @ wv @ wc @ wl @ w9 \<and> list_all is_space w0 \<and> opt_v wv \<and>
        parses core_re wc c0 c5 \<and> parses local_re wl c5 c \<and> list_all is_space w9)"
proof -
  have "parses versionRegex s c0 c =
     (\<exists>w0 wv wc wl w9 c1 c2 c3 c4. s = w0 @ wv @ wc @ wl @ w9 \<and>
        parses (Rep (Atom is_space)) w0 c0 c1 \<and> parses (Opt (LitI CHR ''v'')) wv c1 c2 \<and>
        parses core_re wc c2 c3 \<and> parses local_re wl c3 c4 \<and> parses (Rep (Atom is_space)) w9 c4 c)"
    unfolding versionRegex_def core_re_def[symmetric] by (rule parses_Cat5)
  also have "\<dots> = (\<exists>w0 wv wc wl w9 c5. s = w0 @ wv @ wc @ wl @ w9 \<and> list_all is_space w0 \<and> opt_v wv \<and>
        parses core_re wc c0 c5 \<and> parses local_re wl c5 c \<and> list_all is_space w9)"
    unfolding parses_Rep_Atom parses_Opt_v by blast
  finally show ?thesis .
qed

lemma parses_core_re:
  "parses core_re w c c' =
     (\<exists>we wr wpre wpost wdev c1 c2 c3 c4. w = we @ wr @ wpre @ wpost @ wdev \<and>
        parses epoch_re we c c1 \<and> parses release_re wr c1 c2 \<and> parses pre_re wpre c2 c3 \<and>
        parses post_re wpost c3 c4 \<and> parses dev_re wdev c4 c')"
  unfolding core_re_def by (rule parses_Cat5)

section \<open>Characters and numbers\<close>

lemma is_digit_props:
  assumes "is_digit c"
  shows "\<not> is_space c" "\<not> is_sep c" "to_lower c = c" "c \<noteq> CHR ''!''" "c \<noteq> CHR ''+''"
    "c \<noteq> CHR ''.''" "c \<noteq> CHR ''-''" "is_alnum c" "\<not> is_lower c" "\<not> is_upper c"
  using assms
  by (auto simp: is_digit_def is_space_def is_sep_def to_lower_def is_upper_def is_lower_def
      is_alnum_def less_eq_char_def)

lemma to_lower_idem: "to_lower (to_lower c) = to_lower c"
  by (auto simp: to_lower_def is_upper_def less_eq_char_def)

lemma is_upper_to_lower: "is_upper c \<Longrightarrow> is_lower (to_lower c)"
  by (auto simp: to_lower_def is_upper_def is_lower_def less_eq_char_def)

lemma is_lower_to_lower: "is_lower c \<Longrightarrow> to_lower c = c"
  by (auto simp: to_lower_def is_upper_def is_lower_def less_eq_char_def)

lemma is_lower_to_lower_iff: "is_lower (to_lower c) = (is_lower c \<or> is_upper c)"
  by (auto simp: to_lower_def is_upper_def is_lower_def less_eq_char_def)

lemma is_sep_props:
  assumes "is_sep c"
  shows "\<not> is_space c" "to_lower c = c" "\<not> is_alnum c" "\<not> is_digit c" "c \<noteq> CHR ''+''"
    "\<not> is_lower c" "\<not> is_upper c"
  using assms
  by (auto simp: is_digit_def is_space_def is_sep_def to_lower_def is_upper_def is_lower_def
      is_alnum_def less_eq_char_def)

lemma is_alnum_props:
  assumes "is_alnum c"
  shows "\<not> is_space c" "\<not> is_sep c" "c \<noteq> CHR ''+''" "is_alnum (to_lower c)"
  using assms
  by (auto simp: is_digit_def is_space_def is_sep_def to_lower_def is_upper_def is_lower_def
      is_alnum_def less_eq_char_def)

lemma to_lower_not_upper: "\<not> is_upper (to_lower c)"
  by (auto simp: to_lower_def is_upper_def less_eq_char_def)

lemma digit_char: "d < 10 \<Longrightarrow> is_digit (char_of (48 + d)) \<and> digit_value (char_of (48 + d)) = d"
  by (auto simp: is_digit_def digit_value_def less_eq_char_def)

lemma is_number_BigInt_String: "is_number (BigInt_String n)"
proof (induction n rule: BigInt_String.induct)
  case (1 n)
  show ?case
  proof (cases "n < 10")
    case True
    then show ?thesis using digit_char[of n] by (simp add: BigInt_String.simps[of n] is_number_def)
  next
    case False
    with 1 have "is_number (BigInt_String (n div 10))" by simp
    moreover have "is_digit (char_of (48 + n mod 10))" using digit_char[of "n mod 10"] by simp
    ultimately show ?thesis using False
      by (simp add: BigInt_String.simps[of n] is_number_def)
  qed
qed

lemma decimal_snoc: "decimal (s @ [c]) = 10 * decimal s + digit_value c"
  by (simp add: decimal_def)

lemma decimal_BigInt_String: "decimal (BigInt_String n) = n"
proof (induction n rule: BigInt_String.induct)
  case (1 n)
  show ?case
  proof (cases "n < 10")
    case True
    then show ?thesis using digit_char[of n]
      by (simp add: BigInt_String.simps[of n] decimal_def)
  next
    case False
    with 1 have "decimal (BigInt_String (n div 10)) = n div 10" by simp
    then show ?thesis using False digit_char[of "n mod 10"]
      by (simp add: BigInt_String.simps[of n] decimal_snoc)
  qed
qed

lemma NewBigInt_BigInt_String: "NewBigInt (BigInt_String n) = Some n"
  by (simp add: NewBigInt_def is_number_BigInt_String decimal_BigInt_String)

lemma parse_release_numbers: "list_all is_number xs \<Longrightarrow> parse_release xs = Some (map decimal xs)"
  by (induction xs) (auto simp: NewBigInt_def)

lemma NewBigInt_digits: "list_all is_digit m \<Longrightarrow> m \<noteq> [] \<Longrightarrow> NewBigInt m = Some (decimal m)"
  by (simp add: NewBigInt_def is_number_def)

lemma pg_epoch:
  "list_all is_digit m \<Longrightarrow> parse_group v ''epoch'' m st =
     Inr (st\<lparr>v_epoch := if m = [] then v_epoch st else decimal m\<rparr>)"
  by (simp add: parse_group_def NewBigInt_digits)

lemma pg_release:
  "m = [] \<or> list_all is_number (Split m CHR ''.'') \<Longrightarrow> parse_group v ''release'' m st =
     Inr (st\<lparr>v_release := if m = [] then v_release st
                            else v_release st @ map decimal (Split m CHR ''.'')\<rparr>)"
  by (auto simp: parse_group_def parse_release_numbers)

lemma pg_pre_l:
  "parse_group v ''pre_l'' m st =
     Inr (st\<lparr>preL := if m = [] then preL st else lookup preReleaseAliases (ToLower m)\<rparr>)"
  by (simp add: parse_group_def)

lemma pg_pre_n:
  "list_all is_digit m \<Longrightarrow> parse_group v ''pre_n'' m st =
     Inr (st\<lparr>preN := if m = [] then preN st else decimal m\<rparr>)"
  by (simp add: parse_group_def NewBigInt_digits)

lemma pg_post_l:
  "parse_group v ''post_l'' m st =
     Inr (st\<lparr>postL := if m = [] then postL st else lookup postReleaseAliases (ToLower m)\<rparr>)"
  by (simp add: parse_group_def)

lemma pg_post_n1:
  "list_all is_digit m \<Longrightarrow> parse_group v ''post_n1'' m st =
     Inr (st\<lparr>postL := if m \<noteq> [] \<and> postL st = [] then ''post'' else postL st,
              postN := if m = [] then postN st else decimal m\<rparr>)"
  by (simp add: parse_group_def NewBigInt_digits Let_def)

lemma pg_post_n2:
  "list_all is_digit m \<Longrightarrow> parse_group v ''post_n2'' m st =
     Inr (st\<lparr>postL := if m \<noteq> [] \<and> postL st = [] then ''post'' else postL st,
              postN := if m = [] then postN st else decimal m\<rparr>)"
  by (simp add: parse_group_def NewBigInt_digits Let_def)

lemma pg_dev_l:
  "parse_group v ''dev_l'' m st = Inr (st\<lparr>devL := if m = [] then devL st else ToLower m\<rparr>)"
  by (simp add: parse_group_def)

lemma pg_dev_n:
  "list_all is_digit m \<Longrightarrow> parse_group v ''dev_n'' m st =
     Inr (st\<lparr>devN := if m = [] then devN st else decimal m\<rparr>)"
  by (simp add: parse_group_def NewBigInt_digits)

lemma pg_local:
  "parse_group v ''local'' m st = Inr (st\<lparr>v_local := if m = [] then v_local st else ToLower m\<rparr>)"
  by (simp add: parse_group_def)

lemma pg_other:
  "parse_group v [] m st = Inr st" "parse_group v ''pre'' m st = Inr st"
  "parse_group v ''post'' m st = Inr st" "parse_group v ''dev'' m st = Inr st"
  by (simp_all add: parse_group_def)

lemma enumerate_SubexpNames:
  "enumerate 0 SubexpNames =
     [(0, []), (1, ''epoch''), (2, ''release''), (3, ''pre''), (4, ''pre_l''), (5, []),
      (6, ''pre_n''), (7, ''post''), (8, ''post_n1''), (9, ''post_l''), (10, ''post_n2''),
      (11, ''dev''), (12, ''dev_l''), (13, ''dev_n''), (14, ''local'')]"
  by (simp add: SubexpNames_def)

lemma parse_groups_closed:
  assumes "list_all is_digit (submatch c 1)"
    and "submatch c 2 = [] \<or> list_all is_number (Split (submatch c 2) CHR ''.'')"
    and "list_all is_digit (submatch c 6)" "list_all is_digit (submatch c 8)"
    and "list_all is_digit (submatch c 10)" "list_all is_digit (submatch c 13)"
  shows "parse_groups v c (enumerate 0 SubexpNames)
           \<lparr>v_epoch = 0, v_release = [], preL = [], preN = 0, postL = [], postN = 0,
             devL = [], devN = 0, v_local = []\<rparr> = Inr (vars_of_caps c)"
proof -
  note pg = pg_epoch[OF assms(1)] pg_release[OF assms(2)] pg_pre_l pg_pre_n[OF assms(3)] pg_post_l
    pg_post_n1[OF assms(4)] pg_post_n2[OF assms(5)] pg_dev_l pg_dev_n[OF assms(6)] pg_local pg_other
  have "parse_groups v c (enumerate 0 SubexpNames)
           \<lparr>v_epoch = 0, v_release = [], preL = [], preN = 0, postL = [], postN = 0,
             devL = [], devN = 0, v_local = []\<rparr> =
        Inr \<lparr>v_epoch = if submatch c 1 = [] then 0 else decimal (submatch c 1),
          v_release = if submatch c 2 = [] then [] else [] @ map decimal (Split (submatch c 2) CHR ''.''),
          preL = if submatch c 4 = [] then [] else lookup preReleaseAliases (ToLower (submatch c 4)),
          preN = if submatch c 6 = [] then 0 else decimal (submatch c 6),
          postL = (let l8 = (if submatch c 8 \<noteq> [] \<and> ([]::string) = [] then ''post'' else []);
                       l9 = (if submatch c 9 = [] then l8
                             else lookup postReleaseAliases (ToLower (submatch c 9)))
                   in if submatch c 10 \<noteq> [] \<and> l9 = [] then ''post'' else l9),
          postN = (if submatch c 10 = []
                   then (if submatch c 8 = [] then 0 else decimal (submatch c 8))
                   else decimal (submatch c 10)),
          devL = if submatch c 12 = [] then [] else ToLower (submatch c 12),
          devN = if submatch c 13 = [] then 0 else decimal (submatch c 13),
          v_local = if submatch c 14 = [] then [] else ToLower (submatch c 14)\<rparr>"
    unfolding enumerate_SubexpNames
    by (simp only: parse_groups.simps pg sum.case vars.simps Let_def)
  also have "\<dots> = Inr (vars_of_caps c)"
    unfolding vars_of_caps_def num_def post_letter_def Let_def
    by (simp add: ToLower_def)
  finally show ?thesis .
qed

section \<open>The groups of a matched version\<close>

lemma grps_pieces:
  "grps epoch_re = {1}" "grps release_re = {2}" "grps pre_re = {3, 4, 5, 6}"
  "grps post_re = {7, 8, 9, 10}" "grps dev_re = {11, 12, 13}" "grps local_re = {14}"
proof -
  have W: "grps (Word LitI u) = {}" for u
    by (induction LitI u rule: Word.induct) (simp_all add: LitI_def)
  have B: "grps (Alts rs) \<subseteq> \<Union> (grps ` set rs)" for rs
    by (induction rs rule: Alts.induct) auto
  have A: "grps (Alts (map (Word LitI) ws)) = {}" for ws
    using B[of "map (Word LitI) ws"] by (auto simp: W)
  show "grps epoch_re = {1}" "grps release_re = {2}" "grps local_re = {14}"
    by (auto simp: epoch_re_def release_re_def local_re_def Opt_def Digits_def Plus_def Lit_def)
  show "grps pre_re = {3, 4, 5, 6}"
    unfolding pre_re_def by (auto simp: Opt_def Digits_def Plus_def A)
  show "grps post_re = {7, 8, 9, 10}"
    unfolding post_re_def by (auto simp: Opt_def Digits_def Plus_def Lit_def A)
  show "grps dev_re = {11, 12, 13}"
    unfolding dev_re_def by (auto simp: Opt_def Digits_def Plus_def LitI_def)
qed

lemma keep_epoch: "parses epoch_re w c c' \<Longrightarrow> i \<noteq> 1 \<Longrightarrow> c' i = c i"
  using parses_grps[of epoch_re w c c' i] by (simp add: grps_pieces)

lemma keep_release: "parses release_re w c c' \<Longrightarrow> i \<noteq> 2 \<Longrightarrow> c' i = c i"
  using parses_grps[of release_re w c c' i] by (simp add: grps_pieces)

lemma keep_pre: "parses pre_re w c c' \<Longrightarrow> i \<notin> {3, 4, 5, 6} \<Longrightarrow> c' i = c i"
  using parses_grps[of pre_re w c c' i] by (simp add: grps_pieces)

lemma keep_post: "parses post_re w c c' \<Longrightarrow> i \<notin> {7, 8, 9, 10} \<Longrightarrow> c' i = c i"
  using parses_grps[of post_re w c c' i] by (simp add: grps_pieces)

lemma keep_dev: "parses dev_re w c c' \<Longrightarrow> i \<notin> {11, 12, 13} \<Longrightarrow> c' i = c i"
  using parses_grps[of dev_re w c c' i] by (simp add: grps_pieces)

lemma keep_local: "parses local_re w c c' \<Longrightarrow> i \<noteq> 14 \<Longrightarrow> c' i = c i"
  using parses_grps[of local_re w c c' i] by (simp add: grps_pieces)

lemma match_pieces:
  assumes "parses versionRegex s Map.empty c"
  obtains w0 wv we wr wpre wpost wdev wl w9 c1 c2 c3 c4 c5 where
    "s = w0 @ wv @ (we @ wr @ wpre @ wpost @ wdev) @ wl @ w9"
    "list_all is_space w0" "opt_v wv" "list_all is_space w9"
    "parses epoch_re we Map.empty c1" "parses release_re wr c1 c2" "parses pre_re wpre c2 c3"
    "parses post_re wpost c3 c4" "parses dev_re wdev c4 c5" "parses local_re wl c5 c"
proof -
  from assms obtain w0 wv wc wl w9 c5 where 1: "s = w0 @ wv @ wc @ wl @ w9" "list_all is_space w0"
    "opt_v wv" "parses core_re wc Map.empty c5" "parses local_re wl c5 c" "list_all is_space w9"
    unfolding parses_versionRegex by blast
  from 1(4) obtain we wr wpre wpost wdev c1 c2 c3 c4 where 2: "wc = we @ wr @ wpre @ wpost @ wdev"
    "parses epoch_re we Map.empty c1" "parses release_re wr c1 c2" "parses pre_re wpre c2 c3"
    "parses post_re wpost c3 c4" "parses dev_re wdev c4 c5"
    unfolding parses_core_re by blast
  from 1 2 that show thesis by blast
qed

lemma match_groups_ok:
  assumes "parses versionRegex s Map.empty c"
  shows "groups_ok c"
proof -
  from assms obtain w0 wv we wr wpre wpost wdev wl w9 c1 c2 c3 c4 c5 where
    e: "parses epoch_re we Map.empty c1" and r: "parses release_re wr c1 c2"
    and p: "parses pre_re wpre c2 c3" and q: "parses post_re wpost c3 c4"
    and d: "parses dev_re wdev c4 c5" and l: "parses local_re wl c5 c"
    by (rule match_pieces)
  have g1: "c 1 = c1 1"
    using keep_release[OF r, of 1] keep_pre[OF p, of 1] keep_post[OF q, of 1] keep_dev[OF d, of 1]
      keep_local[OF l, of 1] by simp
  have g2: "c 2 = c2 2"
    using keep_pre[OF p, of 2] keep_post[OF q, of 2] keep_dev[OF d, of 2] keep_local[OF l, of 2]
    by simp
  have g3: "c i = c3 i" if "i \<in> {4, 6}" for i
    using that keep_post[OF q, of i] keep_dev[OF d, of i] keep_local[OF l, of i] by auto
  have b3: "c2 i = None" if "i \<in> {4, 6}" for i
    using that keep_epoch[OF e, of i] keep_release[OF r, of i] by auto
  have g4: "c i = c4 i" if "i \<in> {8, 9, 10}" for i
    using that keep_dev[OF d, of i] keep_local[OF l, of i] by auto
  have b4: "c3 i = None" if "i \<in> {8, 9, 10}" for i
    using that keep_epoch[OF e, of i] keep_release[OF r, of i] keep_pre[OF p, of i] by auto
  have g5: "c i = c5 i" if "i \<in> {12, 13}" for i
    using that keep_local[OF l, of i] by auto
  have b5: "c4 i = None" if "i \<in> {12, 13}" for i
    using that keep_epoch[OF e, of i] keep_release[OF r, of i] keep_pre[OF p, of i]
      keep_post[OF q, of i] by auto
  have b6: "c5 14 = None"
    using keep_epoch[OF e, of 14] keep_release[OF r, of 14] keep_pre[OF p, of 14]
      keep_post[OF q, of 14] keep_dev[OF d, of 14] by simp
  have 1: "list_all is_digit (submatch c 1)"
    using e g1 by (auto simp: parses_epoch_re submatch_def is_number_def)
  have 2: "\<exists>x xs. submatch c 2 = dotted x xs \<and> is_number x \<and> list_all is_number xs"
  proof -
    from r obtain x xs where "wr = dotted x xs" "is_number x" "list_all is_number xs"
      "c2 = c1(2 \<mapsto> wr)" unfolding parses_release_re by blast
    with g2 have "submatch c 2 = dotted x xs \<and> is_number x \<and> list_all is_number xs"
      by (simp add: submatch_def)
    then show ?thesis by blast
  qed
  have 3: "submatch c 4 = [] \<and> submatch c 6 = [] \<or>
         ToLower (submatch c 4) \<in> set pre_words \<and> list_all is_digit (submatch c 6)"
    using p g3[of 4] g3[of 6] b3[of 4] b3[of 6]
    by (auto simp: parses_pre_re submatch_def split: if_splits)
  have 4: "submatch c 8 = [] \<and> submatch c 9 = [] \<and> submatch c 10 = [] \<or>
         is_number (submatch c 8) \<and> submatch c 9 = [] \<and> submatch c 10 = [] \<or>
         submatch c 8 = [] \<and> ToLower (submatch c 9) \<in> set post_words \<and>
           list_all is_digit (submatch c 10)"
    using q g4[of 8] g4[of 9] g4[of 10] b4[of 8] b4[of 9] b4[of 10]
    by (auto simp: parses_post_re submatch_def split: if_splits)
  have 5: "submatch c 12 = [] \<and> submatch c 13 = [] \<or>
         ToLower (submatch c 12) = ''dev'' \<and> list_all is_digit (submatch c 13)"
    using d g5[of 12] g5[of 13] b5[of 12] b5[of 13]
    by (auto simp: parses_dev_re submatch_def split: if_splits)
  have 6: "submatch c 14 = [] \<or> is_local (submatch c 14)"
    using l b6 by (auto simp: parses_local_re submatch_def)
  from 1 2 3 4 5 6 show ?thesis unfolding groups_ok_def by blast
qed

section \<open>What Parse returns\<close>

lemma split_at_no_sep: "d \<notin> set x \<Longrightarrow> split_at d acc x = [rev acc @ x]"
  by (induction x arbitrary: acc) auto

lemma split_at_sep:
  "d \<notin> set x \<Longrightarrow> split_at d acc (x @ d # rest) = (rev acc @ x) # split_at d [] rest"
  by (induction x arbitrary: acc) auto

lemma is_number_no_dot: "is_number x \<Longrightarrow> CHR ''.'' \<notin> set x"
  using is_digit_props(6) by (auto simp: is_number_def list_all_iff)

lemma Split_dotted_aux:
  "CHR ''.'' \<notin> set x \<Longrightarrow> list_all is_number xs \<Longrightarrow>
   split_at CHR ''.'' acc (x @ concat (map ((#) CHR ''.'') xs)) = (rev acc @ x) # xs"
proof (induction xs arbitrary: x acc)
  case Nil
  then show ?case by (simp add: split_at_no_sep)
next
  case (Cons y ys)
  then have "CHR ''.'' \<notin> set y" "list_all is_number ys" by (simp_all add: is_number_no_dot)
  with Cons.IH[of y "[]"] have "split_at CHR ''.'' [] (y @ concat (map ((#) CHR ''.'') ys)) = y # ys"
    by simp
  with Cons.prems(1) show ?case by (simp add: split_at_sep)
qed

lemma Split_dotted:
  "is_number x \<Longrightarrow> list_all is_number xs \<Longrightarrow> Split (dotted x xs) CHR ''.'' = x # xs"
  using Split_dotted_aux[of x xs "[]"] by (simp add: Split_def dotted_def is_number_no_dot)

lemma submatch_upd_0: "i \<noteq> 0 \<Longrightarrow> submatch (c(0 \<mapsto> v)) i = submatch c i"
  by (simp add: submatch_def)

lemma vars_of_caps_upd_0: "vars_of_caps (c(0 \<mapsto> v)) = vars_of_caps c"
  by (simp add: vars_of_caps_def post_letter_def submatch_upd_0)

lemma Parse_of_match:
  assumes "FindStringSubmatch versionRegex s = Some c"
  shows "Parse s = Inr (version_of_vars s (vars_of_caps c))"
proof -
  from assms have "groups_ok c" by (blast intro: match_groups_ok FindStringSubmatch_Some)
  then obtain x xs where g: "list_all is_digit (submatch c 1)"
    "submatch c 2 = dotted x xs" "is_number x" "list_all is_number xs"
    "list_all is_digit (submatch c 6)" "list_all is_digit (submatch c 8)"
    "list_all is_digit (submatch c 10)" "list_all is_digit (submatch c 13)"
    unfolding groups_ok_def by (auto simp: is_number_def)
  from g(2,3,4) have "list_all is_number (Split (submatch c 2) CHR ''.'')"
    by (simp add: Split_dotted)
  with g have "parse_groups s (c(0 \<mapsto> s)) (enumerate 0 SubexpNames)
           \<lparr>v_epoch = 0, v_release = [], preL = [], preN = 0, postL = [], postN = 0,
             devL = [], devN = 0, v_local = []\<rparr> = Inr (vars_of_caps (c(0 \<mapsto> s)))"
    by (intro parse_groups_closed) (simp_all add: submatch_upd_0)
  with assms show ?thesis
    by (simp add: Parse_def vars_of_caps_upd_0 version_of_vars_def Let_def)
qed

lemma Parse_cases:
  "Parse s = (case FindStringSubmatch versionRegex s of
                None \<Rightarrow> Inl (MalformedVersion s)
              | Some c \<Rightarrow> Inr (version_of_vars s (vars_of_caps c)))"
proof (cases "FindStringSubmatch versionRegex s")
  case None
  then show ?thesis by (simp add: Parse_def)
next
  case (Some c)
  then show ?thesis by (simp add: Parse_of_match)
qed

lemma is_word_ToLower: "is_word x \<Longrightarrow> is_word (ToLower x)"
  by (auto simp: is_word_def ToLower_def list_all_iff is_alnum_props(4))

lemma is_local_ToLower:
  assumes "is_local l"
  shows "is_local (ToLower l)"
proof -
  from assms obtain x us where l: "l = x @ concat us" "is_word x"
    "list_all (\<lambda>u. \<exists>d y. u = d # y \<and> is_sep d \<and> is_word y) us"
    unfolding is_local_def by blast
  have 1: "ToLower l = ToLower x @ concat (map ToLower us)"
  proof -
    have e: "map ToLower us = map (map to_lower) us" by (simp add: ToLower_def)
    show ?thesis unfolding l(1) e by (simp add: ToLower_def map_concat)
  qed
  have 2: "list_all (\<lambda>u. \<exists>d y. u = d # y \<and> is_sep d \<and> is_word y) (map ToLower us)"
    using l(3)
  proof (induction us)
    case Nil
    then show ?case by simp
  next
    case (Cons u us)
    then obtain d y where "u = d # y" "is_sep d" "is_word y" by auto
    then have "ToLower u = d # ToLower y \<and> is_sep d \<and> is_word (ToLower y)"
      by (simp add: ToLower_def is_sep_props(2) is_word_ToLower[unfolded ToLower_def])
    with Cons show ?case by auto
  qed
  from 1 2 is_word_ToLower[OF l(2)] show ?thesis unfolding is_local_def by blast
qed

lemma ToLower_idem: "ToLower (ToLower l) = ToLower l"
  by (simp add: ToLower_def to_lower_idem)

lemma lookup_pre: "w \<in> set pre_words \<Longrightarrow> lookup preReleaseAliases w \<in> {''a'', ''b'', ''rc''}"
  by (auto simp: pre_words_def lookup_def preReleaseAliases_def)

lemma lookup_post: "w \<in> set post_words \<Longrightarrow> lookup postReleaseAliases w = ''post''"
  by (auto simp: post_words_def lookup_def postReleaseAliases_def)

lemma wf_version_of_caps:
  assumes "groups_ok c"
  shows "wf_version (version_of_vars s (vars_of_caps c))"
proof -
  from assms obtain x xs where g2: "submatch c 2 = dotted x xs" "is_number x" "list_all is_number xs"
    unfolding groups_ok_def by blast
  then have "Split (submatch c 2) CHR ''.'' = x # xs" "submatch c 2 \<noteq> []"
    by (simp_all add: Split_dotted) (simp add: dotted_def is_number_def)
  then have r: "v_release (vars_of_caps c) \<noteq> []"
    by (simp add: vars_of_caps_def)
  from assms have "submatch c 4 = [] \<and> submatch c 6 = [] \<or>
         ToLower (submatch c 4) \<in> set pre_words \<and> list_all is_digit (submatch c 6)"
    unfolding groups_ok_def by blast
  then have p: "wf_ln {''a'', ''b'', ''rc''}
      \<lparr>letter = preL (vars_of_caps c), number = preN (vars_of_caps c)\<rparr>"
    using lookup_pre[of "ToLower (submatch c 4)"]
    by (auto simp: wf_ln_def vars_of_caps_def num_def ToLower_def pre_words_def)
  from assms have "submatch c 8 = [] \<and> submatch c 9 = [] \<and> submatch c 10 = [] \<or>
         is_number (submatch c 8) \<and> submatch c 9 = [] \<and> submatch c 10 = [] \<or>
         submatch c 8 = [] \<and> ToLower (submatch c 9) \<in> set post_words \<and>
           list_all is_digit (submatch c 10)"
    unfolding groups_ok_def by blast
  then have q: "wf_ln {''post''}
      \<lparr>letter = postL (vars_of_caps c), number = postN (vars_of_caps c)\<rparr>"
    using lookup_post[of "ToLower (submatch c 9)"]
    by (auto simp: wf_ln_def vars_of_caps_def num_def post_letter_def Let_def ToLower_def
        post_words_def is_number_def)
  from assms have "submatch c 12 = [] \<and> submatch c 13 = [] \<or>
         ToLower (submatch c 12) = ''dev'' \<and> list_all is_digit (submatch c 13)"
    unfolding groups_ok_def by blast
  then have d: "wf_ln {''dev''}
      \<lparr>letter = devL (vars_of_caps c), number = devN (vars_of_caps c)\<rparr>"
    by (auto simp: wf_ln_def vars_of_caps_def num_def ToLower_def)
  from assms have "submatch c 14 = [] \<or> is_local (submatch c 14)"
    unfolding groups_ok_def by blast
  then have l: "v_local (vars_of_caps c) = [] \<or>
      is_local (v_local (vars_of_caps c)) \<and> ToLower (v_local (vars_of_caps c)) = v_local (vars_of_caps c)"
    by (auto simp: vars_of_caps_def is_local_ToLower ToLower_idem) (simp add: ToLower_def)
  from r p q d l show ?thesis
    by (simp add: wf_version_def version_of_vars_def)
qed

theorem Parse_wf:
  assumes "Parse s = Inr v"
  shows "wf_version v" and "original v = s"
proof -
  from assms obtain c where c: "FindStringSubmatch versionRegex s = Some c"
    and v: "v = version_of_vars s (vars_of_caps c)"
    by (auto simp: Parse_cases split: option.splits)
  from c have "groups_ok c" by (blast intro: match_groups_ok FindStringSubmatch_Some)
  with v show "wf_version v" by (simp add: wf_version_of_caps)
  from v show "original v = s" by (simp add: version_of_vars_def)
qed

section \<open>Splitting a canonical string\<close>

lemma takeWhile_munch:
  assumes "list_all p a" "b = [] \<or> \<not> p (hd b)"
  shows "takeWhile p (a @ b) = a \<and> dropWhile p (a @ b) = b"
proof -
  from assms(2) have "takeWhile p b = [] \<and> dropWhile p b = b" by (cases b) auto
  with assms(1) show ?thesis by (induction a) auto
qed

lemma munch:
  assumes "list_all p a" "list_all p a'" "b = [] \<or> \<not> p (hd b)" "b' = [] \<or> \<not> p (hd b')"
    and "a @ b = a' @ b'"
  shows "a = a' \<and> b = b'"
proof -
  have "takeWhile p (a @ b) = a \<and> dropWhile p (a @ b) = b"
    by (rule takeWhile_munch[OF assms(1,3)])
  moreover have "takeWhile p (a @ b) = a' \<and> dropWhile p (a @ b) = b'"
    unfolding assms(5) by (rule takeWhile_munch[OF assms(2,4)])
  ultimately show ?thesis by simp
qed

lemma tail_ok_nd: "tail_ok u \<Longrightarrow> u = [] \<or> \<not> is_digit (hd u)"
  by (cases u) (auto simp: tail_ok_def)

lemma dots_nd: "list_all is_number xs \<Longrightarrow> tail_ok t \<Longrightarrow>
  concat (map ((#) CHR ''.'') xs) @ t = [] \<or> \<not> is_digit (hd (concat (map ((#) CHR ''.'') xs) @ t))"
  using is_digit_props(6) by (cases xs) (auto dest: tail_ok_nd)

lemma dots_unique:
  "list_all is_number xs \<Longrightarrow> list_all is_number ys \<Longrightarrow> tail_ok t \<Longrightarrow> tail_ok u \<Longrightarrow>
   concat (map ((#) CHR ''.'') xs) @ t = concat (map ((#) CHR ''.'') ys) @ u \<Longrightarrow>
   xs = ys \<and> t = u"
proof (induction xs arbitrary: ys)
  case Nil
  show ?case
  proof (cases ys)
    case Nil
    with Nil.prems show ?thesis by simp
  next
    case (Cons y ys')
    with Nil.prems have "is_number y" "t = CHR ''.'' # y @ concat (map ((#) CHR ''.'') ys') @ u"
      by simp_all
    with Nil.prems(3) show ?thesis by (cases y) (auto simp: tail_ok_def is_number_def)
  qed
next
  case (Cons x xs)
  show ?case
  proof (cases ys)
    case Nil
    with Cons.prems have "is_number x" "u = CHR ''.'' # x @ concat (map ((#) CHR ''.'') xs) @ t"
      by simp_all
    with Cons.prems(4) show ?thesis by (cases x) (auto simp: tail_ok_def is_number_def)
  next
    case (Cons y ys')
    with Cons.prems have n: "is_number x" "is_number y" "list_all is_number xs"
      "list_all is_number ys'" by simp_all
    from Cons Cons.prems have e: "x @ (concat (map ((#) CHR ''.'') xs) @ t) =
        y @ (concat (map ((#) CHR ''.'') ys') @ u)" by simp
    from n have "list_all is_digit x" "list_all is_digit y" by (simp_all add: is_number_def)
    from munch[OF this dots_nd[OF n(3) Cons.prems(3)] dots_nd[OF n(4) Cons.prems(4)] e]
    have "x = y" "concat (map ((#) CHR ''.'') xs) @ t = concat (map ((#) CHR ''.'') ys') @ u"
      by simp_all
    with Cons.IH[OF n(3,4) Cons.prems(3,4)] Cons show ?thesis by simp
  qed
qed

lemma dotted_unique:
  assumes "is_number x" "list_all is_number xs" "is_number y" "list_all is_number ys"
    and "tail_ok t" "tail_ok u" and "dotted x xs @ t = dotted y ys @ u"
  shows "x = y \<and> xs = ys \<and> t = u"
proof -
  from assms(7) have e: "x @ (concat (map ((#) CHR ''.'') xs) @ t) =
        y @ (concat (map ((#) CHR ''.'') ys) @ u)" by (simp add: dotted_def)
  from assms have "list_all is_digit x" "list_all is_digit y" by (simp_all add: is_number_def)
  from munch[OF this dots_nd[OF assms(2,5)] dots_nd[OF assms(4,6)] e]
  have "x = y" "concat (map ((#) CHR ''.'') xs) @ t = concat (map ((#) CHR ''.'') ys) @ u"
    by simp_all
  with dots_unique[OF assms(2,4,5,6)] show ?thesis by simp
qed

text \<open>After the epoch comes a release and its tail, which does not start with an exclamation mark.\<close>

lemma dotted_tail_shape:
  assumes "is_number x" "list_all is_number xs" "tail_ok t"
  shows "\<exists>r. dotted x xs @ t = x @ r \<and> (r = [] \<or> \<not> is_digit (hd r) \<and> hd r \<noteq> CHR ''!'')"
proof -
  have "concat (map ((#) CHR ''.'') xs) @ t = [] \<or>
      \<not> is_digit (hd (concat (map ((#) CHR ''.'') xs) @ t)) \<and>
      hd (concat (map ((#) CHR ''.'') xs) @ t) \<noteq> CHR ''!''"
    using assms(3) is_digit_props(6) by (cases xs; cases t) (auto simp: tail_ok_def)
  then show ?thesis by (auto simp: dotted_def)
qed

lemma epoch_unique:
  assumes we: "parses epoch_re we c c1"
    and E: "E = [] \<and> ce = c \<or> (\<exists>N. is_number N \<and> E = N @ ''!'' \<and> ce = c(1 \<mapsto> N))"
    and X: "is_number x" "list_all is_number xs" "tail_ok t"
    and Y: "is_number y" "list_all is_number ys" "tail_ok u"
    and eq: "E @ dotted x xs @ t = we @ dotted y ys @ u"
  shows "we = E \<and> c1 = ce \<and> dotted x xs @ t = dotted y ys @ u"
proof -
  from dotted_tail_shape[OF X] obtain r where r: "dotted x xs @ t = x @ r"
    "r = [] \<or> \<not> is_digit (hd r) \<and> hd r \<noteq> CHR ''!''" by blast
  from dotted_tail_shape[OF Y] obtain r' where r': "dotted y ys @ u = y @ r'"
    "r' = [] \<or> \<not> is_digit (hd r') \<and> hd r' \<noteq> CHR ''!''" by blast
  have dx: "list_all is_digit x" and dy: "list_all is_digit y"
    using X(1) Y(1) by (simp_all add: is_number_def)
  from we consider (none) "we = []" "c1 = c"
    | (some) d where "is_number d" "we = d @ ''!''" "c1 = c(1 \<mapsto> d)"
    unfolding parses_epoch_re by blast
  then show ?thesis
  proof cases
    case none
    from E show ?thesis
    proof
      assume "E = [] \<and> ce = c"
      with none eq show ?thesis by simp
    next
      assume "\<exists>N. is_number N \<and> E = N @ ''!'' \<and> ce = c(1 \<mapsto> N)"
      then obtain N where N: "is_number N" "E = N @ ''!''" by blast
      with none eq r' have e: "N @ (CHR ''!'' # dotted x xs @ t) = y @ r'" by simp
      from N have dN: "list_all is_digit N" by (simp add: is_number_def)
      have b: "CHR ''!'' # dotted x xs @ t = [] \<or> \<not> is_digit (hd (CHR ''!'' # dotted x xs @ t))"
        using is_digit_props(4) by auto
      from r'(2) have b': "r' = [] \<or> \<not> is_digit (hd r')" by blast
      from munch[OF dN dy b b' e] have "CHR ''!'' # dotted x xs @ t = r'" by simp
      with r'(2) show ?thesis by auto
    qed
  next
    case some
    from some have dd: "list_all is_digit d" by (simp add: is_number_def)
    have b': "CHR ''!'' # dotted y ys @ u = [] \<or> \<not> is_digit (hd (CHR ''!'' # dotted y ys @ u))"
      using is_digit_props(4) by auto
    from E show ?thesis
    proof
      assume "E = [] \<and> ce = c"
      with some eq r have e: "x @ r = d @ (CHR ''!'' # dotted y ys @ u)" by simp
      from r(2) have b: "r = [] \<or> \<not> is_digit (hd r)" by blast
      from munch[OF dx dd b b' e] have "r = CHR ''!'' # dotted y ys @ u" by simp
      with r(2) show ?thesis by auto
    next
      assume "\<exists>N. is_number N \<and> E = N @ ''!'' \<and> ce = c(1 \<mapsto> N)"
      then obtain N where N: "is_number N" "E = N @ ''!''" "ce = c(1 \<mapsto> N)" by blast
      with some eq have e: "N @ (CHR ''!'' # dotted x xs @ t) = d @ (CHR ''!'' # dotted y ys @ u)"
        by simp
      from N have dN: "list_all is_digit N" by (simp add: is_number_def)
      have b: "CHR ''!'' # dotted x xs @ t = [] \<or> \<not> is_digit (hd (CHR ''!'' # dotted x xs @ t))"
        using is_digit_props(4) by auto
      from munch[OF dN dd b b' e] N some show ?thesis by simp
    qed
  qed
qed

section \<open>Letters, separators and digits\<close>

lemma is_alpha_props:
  assumes "is_alpha c"
  shows "\<not> is_digit c" "\<not> is_sep c" "c \<noteq> CHR ''!''" "c \<noteq> CHR ''.''" "c \<noteq> CHR ''-''"
  using assms
  by (auto simp: is_alpha_def is_digit_def is_sep_def to_lower_def is_upper_def is_lower_def
      less_eq_char_def split: if_splits)

lemma is_lower_alpha: "is_lower c \<Longrightarrow> is_alpha c"
  by (simp add: is_alpha_def is_lower_to_lower)

lemma ToLower_alpha:
  assumes "ToLower l = w" "w \<noteq> []" "list_all is_lower w"
  shows "l \<noteq> [] \<and> list_all is_alpha l"
proof -
  from assms(1,2) have "l \<noteq> []" by (auto simp: ToLower_def)
  moreover have "is_alpha x" if "x \<in> set l" for x
  proof -
    from that assms(1) have "to_lower x \<in> set w" by (auto simp: ToLower_def)
    with assms(3) show ?thesis by (simp add: is_alpha_def list_all_iff)
  qed
  ultimately show ?thesis by (simp add: list_all_iff)
qed

lemma words_lower:
  "\<forall>w\<in>set pre_words. w \<noteq> [] \<and> list_all is_lower w"
  "\<forall>w\<in>set post_words. w \<noteq> [] \<and> list_all is_lower w"
  "list_all is_lower ''dev''" "list_all is_lower ''post''"
  "list_all is_lower ''a''" "list_all is_lower ''b''" "list_all is_lower ''rc''"
  by (simp_all add: pre_words_def post_words_def is_lower_def less_eq_char_def)

lemma ToLower_lower: "list_all is_lower l \<Longrightarrow> ToLower l = l"
  by (induction l) (simp_all add: ToLower_def is_lower_to_lower)

lemma seg_tail_ok:
  assumes "opt_sep s1" "l \<noteq> []" "list_all is_alpha l"
  shows "tail_ok (s1 @ l @ r)"
proof -
  from assms(2,3) obtain x l' where l: "l = x # l'" "is_alpha x" by (cases l) auto
  from assms(1) consider "s1 = []" | a where "s1 = [a]" "is_sep a"
    unfolding opt_sep_iff by blast
  then show ?thesis
  proof cases
    case 1
    with l is_alpha_props[OF l(2)] show ?thesis by (simp add: tail_ok_def)
  next
    case 2
    with l is_alpha_props[OF l(2)] is_sep_props[OF 2(2)] show ?thesis
      by (auto simp: tail_ok_def is_sep_def)
  qed
qed

lemma pre_tail_ok:
  assumes "parses pre_re w c c'" "tail_ok z"
  shows "tail_ok (w @ z)"
proof -
  from assms(1) consider "w = []"
    | s1 l s2 n where "w = s1 @ l @ s2 @ n" "opt_sep s1" "ToLower l \<in> set pre_words"
    unfolding parses_pre_re by blast
  then show ?thesis
  proof cases
    case 1
    with assms(2) show ?thesis by simp
  next
    case 2
    from 2(3) words_lower(1) have "l \<noteq> [] \<and> list_all is_alpha l"
      by (intro ToLower_alpha[of l "ToLower l"]) auto
    with seg_tail_ok[OF 2(2), of l "s2 @ n @ z"] 2(1) show ?thesis by simp
  qed
qed

lemma post_tail_ok:
  assumes "parses post_re w c c'" "tail_ok z"
  shows "tail_ok (w @ z)"
proof -
  from assms(1) consider "w = []" | n where "w = CHR ''-'' # n"
    | s1 l s2 n where "w = s1 @ l @ s2 @ n" "opt_sep s1" "ToLower l \<in> set post_words"
    unfolding parses_post_re by blast
  then show ?thesis
  proof cases
    case 1
    with assms(2) show ?thesis by simp
  next
    case 2
    then show ?thesis by (simp add: tail_ok_def is_digit_def less_eq_char_def)
  next
    case 3
    from 3(3) words_lower(2) have "l \<noteq> [] \<and> list_all is_alpha l"
      by (intro ToLower_alpha[of l "ToLower l"]) auto
    with seg_tail_ok[OF 3(2), of l "s2 @ n @ z"] 3(1) show ?thesis by simp
  qed
qed

lemma dev_tail_ok:
  assumes "parses dev_re w c c'" "tail_ok z"
  shows "tail_ok (w @ z)"
proof -
  from assms(1) consider "w = []"
    | s1 l s2 n where "w = s1 @ l @ s2 @ n" "opt_sep s1" "ToLower l = ''dev''"
    unfolding parses_dev_re by blast
  then show ?thesis
  proof cases
    case 1
    with assms(2) show ?thesis by simp
  next
    case 2
    from 2(3) words_lower(3) have "l \<noteq> [] \<and> list_all is_alpha l"
      by (intro ToLower_alpha[of l "''dev''"]) auto
    with seg_tail_ok[OF 2(2), of l "s2 @ n @ z"] 2(1) show ?thesis by simp
  qed
qed

section \<open>A segment of the pattern against a canonical segment\<close>

lemma prefix_takeWhile: "list_all p l \<Longrightarrow> prefix l (takeWhile p (l @ r))"
  by (induction l) auto

lemma alpha_prefix:
  assumes "list_all is_alpha l" "list_all is_lower L0" "is_number N" "l @ r = L0 @ N @ t"
  shows "\<exists>L1. L0 = l @ L1"
proof -
  from assms(2) have "list_all is_alpha L0" by (simp add: list_all_iff is_lower_alpha)
  moreover from assms(3) have "N @ t = [] \<or> \<not> is_alpha (hd (N @ t))"
    using is_alpha_props(1) by (cases N) (auto simp: is_number_def)
  ultimately have "takeWhile is_alpha (L0 @ N @ t) = L0" by (simp add: takeWhile_munch)
  with prefix_takeWhile[OF assms(1), of r] assms(4) have "prefix l L0" by simp
  then show ?thesis by (auto simp: prefix_def)
qed

lemma block:
  assumes s1: "opt_sep s1" and l: "l \<noteq> []" "list_all is_alpha l" and s2: "opt_sep s2"
    and n: "list_all is_digit n"
    and dot: "opt_sep dot" and L0: "L0 \<noteq> []" "list_all is_lower L0" and N: "is_number N"
    and t: "t = [] \<or> \<not> is_digit (hd t)" and u: "u = [] \<or> \<not> is_digit (hd u)"
    and eq: "(s1 @ l @ s2 @ n) @ u = dot @ L0 @ N @ t"
  shows "s1 = dot \<and> (\<exists>L1. L0 = l @ L1 \<and> s2 = [] \<and>
           (if L1 = [] then n = N \<and> u = t else n = [] \<and> u = L1 @ N @ t))"
proof -
  from l obtain x l' where lx: "l = x # l'" "is_alpha x" by (cases l) auto
  from L0 obtain y L0' where Ly: "L0 = y # L0'" "is_lower y" by (cases L0) auto
  from N obtain d N' where Nd: "N = d # N'" "is_digit d" "list_all is_digit N'"
    by (cases N) (auto simp: is_number_def)
  have 1: "s1 = dot \<and> l @ s2 @ n @ u = L0 @ N @ t"
  proof -
    from s1 consider (e) "s1 = []" | (s) a where "s1 = [a]" "is_sep a"
      unfolding opt_sep_iff by blast
    then show ?thesis
    proof cases
      case e
      from dot consider "dot = []" | b where "dot = [b]" "is_sep b"
        unfolding opt_sep_iff by blast
      then show ?thesis
      proof cases
        case 1
        with e eq show ?thesis by simp
      next
        case 2
        with e eq lx have "x = b" by simp
        with lx(2) 2(2) is_alpha_props(2) show ?thesis by blast
      qed
    next
      case s
      from dot consider "dot = []" | b where "dot = [b]" "is_sep b"
        unfolding opt_sep_iff by blast
      then show ?thesis
      proof cases
        case 1
        with s eq Ly have "a = y" by simp
        with s(2) Ly(2) is_lower_alpha is_alpha_props(2) show ?thesis by blast
      next
        case 2
        with s eq show ?thesis by simp
      qed
    qed
  qed
  then have e2: "l @ (s2 @ n @ u) = L0 @ N @ t" by simp
  from alpha_prefix[OF l(2) L0(2) N e2] obtain L1 where L1: "L0 = l @ L1" by blast
  with e2 have e3: "s2 @ n @ u = L1 @ N @ t" by simp
  have 2: "s2 = [] \<and> (if L1 = [] then n = N \<and> u = t else n = [] \<and> u = L1 @ N @ t)"
  proof (cases L1)
    case Nil
    with e3 Nd have e4: "s2 @ n @ u = d # N' @ t" by simp
    from s2 consider "s2 = []" | a where "s2 = [a]" "is_sep a"
      unfolding opt_sep_iff by blast
    then have s2e: "s2 = []"
    proof cases
      case 1
      then show ?thesis .
    next
      case 2
      with e4 have "a = d" by simp
      with 2(2) Nd(2) is_digit_props(2) show ?thesis by blast
    qed
    with e3 Nil have "n @ u = N @ t" by simp
    moreover from N have "list_all is_digit N" by (simp add: is_number_def)
    ultimately have "n = N \<and> u = t" using munch[OF n _ u t] by blast
    with s2e Nil show ?thesis by simp
  next
    case (Cons z L1')
    with L1 L0(2) have z: "is_lower z" by simp
    from e3 Cons have e4: "s2 @ n @ u = z # L1' @ N @ t" by simp
    from s2 consider "s2 = []" | a where "s2 = [a]" "is_sep a"
      unfolding opt_sep_iff by blast
    then have s2e: "s2 = []"
    proof cases
      case 1
      then show ?thesis .
    next
      case 2
      with e4 have "a = z" by simp
      with 2(2) z is_lower_alpha is_alpha_props(2) show ?thesis by blast
    qed
    have ne: "n = []"
    proof (cases n)
      case Nil
      then show ?thesis .
    next
      case (Cons d' n')
      with e4 s2e n have "d' = z" "is_digit d'" by simp_all
      with z is_lower_alpha is_alpha_props(1) show ?thesis by blast
    qed
    with s2e e3 Cons show ?thesis by simp
  qed
  from 1 2 L1 show ?thesis by blast
qed

lemma seg_word:
  assumes s1: "opt_sep s1" and l: "ToLower l \<in> set ws"
    and ws: "\<forall>w\<in>set ws. w \<noteq> [] \<and> list_all is_lower w"
    and s2: "opt_sep s2" and n: "list_all is_digit n"
    and dot: "opt_sep dot" and L0: "L0 \<noteq> []" "list_all is_lower L0" and N: "is_number N"
    and t: "t = [] \<or> \<not> is_digit (hd t)" and u: "u = [] \<or> \<not> is_digit (hd u)"
    and eq: "(s1 @ l @ s2 @ n) @ u = dot @ L0 @ N @ t"
  shows "s1 = dot \<and> s2 = [] \<and> l \<in> set ws \<and>
        (\<exists>L1. L0 = l @ L1 \<and> (if L1 = [] then n = N \<and> u = t else n = [] \<and> u = L1 @ N @ t))"
proof -
  from l ws have la: "l \<noteq> []" "list_all is_alpha l"
    using ToLower_alpha[of l "ToLower l"] by auto
  from block[OF s1 la s2 n dot L0 N t u eq] obtain L1 where
    b: "s1 = dot" "L0 = l @ L1" "s2 = []"
      "if L1 = [] then n = N \<and> u = t else n = [] \<and> u = L1 @ N @ t" by blast
  from b(2) L0(2) have "list_all is_lower l" by simp
  then have "ToLower l = l" by (rule ToLower_lower)
  with l have "l \<in> set ws" by simp
  with b show ?thesis by blast
qed

lemma dev_block:
  assumes p: "parses dev_re w c c'"
    and dot: "opt_sep dot" and L0: "L0 \<noteq> []" "list_all is_lower L0" and N: "is_number N"
    and t: "t = [] \<or> \<not> is_digit (hd t)"
    and eq: "w = dot @ L0 @ N @ t"
  shows "L0 = ''dev'' \<and> t = [] \<and> c' = c(12 \<mapsto> ''dev'', 13 \<mapsto> N, 11 \<mapsto> w)"
proof -
  from eq L0 have "w \<noteq> []" by simp
  with p obtain s1 l s2 n where w: "w = s1 @ l @ s2 @ n" "opt_sep s1" "ToLower l = ''dev''"
    "opt_sep s2" "list_all is_digit n"
    "c' = (if n = [] then c(12 \<mapsto> l) else c(12 \<mapsto> l, 13 \<mapsto> n))(11 \<mapsto> w)"
    unfolding parses_dev_re by blast
  from w(3) have l: "ToLower l \<in> set [''dev'']" by simp
  have ws: "\<forall>w\<in>set [''dev'']. w \<noteq> [] \<and> list_all is_lower w" using words_lower(3) by simp
  from w(1) eq have e: "(s1 @ l @ s2 @ n) @ [] = dot @ L0 @ N @ t" by simp
  from seg_word[OF w(2) l ws w(4,5) dot L0 N t _ e] obtain L1 where
    b: "l = ''dev''" "L0 = l @ L1" "if L1 = [] then n = N \<and> [] = t else n = [] \<and> [] = L1 @ N @ t"
    by auto
  from b(3) have "L1 = []" by (auto split: if_splits)
  with b N w(6) show ?thesis by (auto simp: is_number_def)
qed

lemma dev_empty: "parses dev_re [] c c' \<Longrightarrow> c' = c"
  unfolding parses_dev_re by (auto simp: ToLower_def)

lemma post_empty: "parses post_re [] c c' \<Longrightarrow> c' = c"
  unfolding parses_post_re by (auto simp: ToLower_def post_words_def)

lemma pre_empty: "parses pre_re [] c c' \<Longrightarrow> c' = c"
  unfolding parses_pre_re by (auto simp: ToLower_def pre_words_def)

lemma post_prefix:
  assumes "l \<in> set post_words" "L0 \<in> {''post'', ''dev'', ''a'', ''b'', ''rc''}" "L0 = l @ L1"
  shows "L0 = ''post'' \<and> l = ''post'' \<and> L1 = [] \<or> L0 = ''rc'' \<and> l = ''r'' \<and> L1 = ''c''"
proof -
  from assms(1) have l: "l = ''post'' \<or> l = ''rev'' \<or> l = ''r''" by (simp add: post_words_def)
  from assms(2) have L: "L0 = ''post'' \<or> L0 = ''dev'' \<or> L0 = ''a'' \<or> L0 = ''b'' \<or> L0 = ''rc''"
    by simp
  from l L assms(3) show ?thesis by (elim disjE) simp_all
qed

lemma pre_prefix:
  assumes "l \<in> set pre_words" "L0 \<in> {''post'', ''dev'', ''a'', ''b'', ''rc''}" "L0 = l @ L1"
  shows "L0 \<in> {''a'', ''b'', ''rc''} \<and> l = L0 \<and> L1 = []"
proof -
  from assms(1) have l: "l = ''a'' \<or> l = ''b'' \<or> l = ''c'' \<or> l = ''rc'' \<or> l = ''alpha'' \<or>
      l = ''beta'' \<or> l = ''pre'' \<or> l = ''preview''" by (simp add: pre_words_def)
  from assms(2) have L: "L0 = ''post'' \<or> L0 = ''dev'' \<or> L0 = ''a'' \<or> L0 = ''b'' \<or> L0 = ''rc''"
    by simp
  from l L assms(3) show ?thesis by (elim disjE) simp_all
qed

lemma post_block:
  assumes p: "parses post_re w c c1" and d: "parses dev_re w' c1 c2"
    and dot: "dot = [] \<or> dot = ''.''"
    and L0: "L0 \<in> {''post'', ''dev'', ''a'', ''b'', ''rc''}" and N: "is_number N"
    and t: "t = [] \<or> \<not> is_digit (hd t)"
    and eq: "w @ w' = dot @ L0 @ N @ t"
  shows "L0 = ''post'' \<and> w = dot @ L0 @ N \<and> w' = t \<and> c1 = c(9 \<mapsto> ''post'', 10 \<mapsto> N, 7 \<mapsto> w) \<or>
         L0 = ''dev'' \<and> w = [] \<and> c1 = c"
proof -
  from dot have od: "opt_sep dot" by (auto simp: opt_sep_def is_sep_def)
  from L0 have L0': "L0 \<noteq> []" "list_all is_lower L0" using words_lower by auto
  from p consider (e) "w = []" | (m) n where "w = CHR ''-'' # n"
    | (s) s1 l s2 n where "w = s1 @ l @ s2 @ n" "opt_sep s1" "ToLower l \<in> set post_words"
      "opt_sep s2" "list_all is_digit n"
      "c1 = (if n = [] then c(9 \<mapsto> l) else c(9 \<mapsto> l, 10 \<mapsto> n))(7 \<mapsto> w)"
    unfolding parses_post_re by blast
  then show ?thesis
  proof cases
    case e
    with p have "c1 = c" by (simp add: post_empty)
    moreover from e eq have "w' = dot @ L0 @ N @ t" by simp
    from dev_block[OF d od L0' N t this] have "L0 = ''dev''" by simp
    ultimately show ?thesis using e by simp
  next
    case m
    with eq dot L0 show ?thesis by auto
  next
    case s
    have u: "w' = [] \<or> \<not> is_digit (hd w')"
      using dev_tail_ok[OF d, of "[]"] tail_ok_nd[of w'] by (simp add: tail_ok_def)
    from s(1) eq have e: "(s1 @ l @ s2 @ n) @ w' = dot @ L0 @ N @ t" by simp
    from seg_word[OF s(2,3) words_lower(2) s(4,5) od L0' N t u e] obtain L1 where
      b: "s1 = dot" "s2 = []" "l \<in> set post_words" "L0 = l @ L1"
        "if L1 = [] then n = N \<and> w' = t else n = [] \<and> w' = L1 @ N @ t" by blast
    from post_prefix[OF b(3) L0 b(4)] consider "L0 = ''post''" "l = ''post''" "L1 = []"
      | "L0 = ''rc''" "l = ''r''" "L1 = ''c''"
      by blast
    then show ?thesis
    proof cases
      case 1
      from b(5) 1(3) have nu: "n = N" "w' = t" by simp_all
      from s(1) b(1,2) 1(1,2) nu(1) have w: "w = dot @ L0 @ N" by simp
      from N have "N \<noteq> []" by (simp add: is_number_def)
      with s(6) nu(1) 1(2) have "c1 = c(9 \<mapsto> ''post'', 10 \<mapsto> N, 7 \<mapsto> w)" by simp
      with 1(1) w nu(2) show ?thesis by blast
    next
      case 2
      with b(5) have "w' = [] @ ''c'' @ N @ t" by simp
      from dev_block[OF d _ _ _ N t this] show ?thesis
        by (simp add: opt_sep_def is_lower_def less_eq_char_def)
    qed
  qed
qed

lemma pre_block:
  assumes p: "parses pre_re w c c1" and q: "parses post_re w' c1 c2"
    and d: "parses dev_re w'' c2 c3"
    and dot: "dot = [] \<or> dot = ''.''"
    and L0: "L0 \<in> {''post'', ''dev'', ''a'', ''b'', ''rc''}" and N: "is_number N"
    and t: "t = [] \<or> \<not> is_digit (hd t)"
    and eq: "w @ w' @ w'' = dot @ L0 @ N @ t"
  shows "L0 \<in> {''a'', ''b'', ''rc''} \<and> w = dot @ L0 @ N \<and> w' @ w'' = t \<and>
           c1 = c(5 \<mapsto> L0, 4 \<mapsto> L0, 6 \<mapsto> N, 3 \<mapsto> w) \<or>
         L0 \<in> {''post'', ''dev''} \<and> w = [] \<and> c1 = c"
proof -
  from dot have od: "opt_sep dot" by (auto simp: opt_sep_def is_sep_def)
  from L0 have L0': "L0 \<noteq> []" "list_all is_lower L0" using words_lower by auto
  from p consider (e) "w = []"
    | (s) s1 l s2 n where "w = s1 @ l @ s2 @ n" "opt_sep s1" "ToLower l \<in> set pre_words"
      "opt_sep s2" "list_all is_digit n"
      "c1 = (if n = [] then c(5 \<mapsto> l, 4 \<mapsto> l) else c(5 \<mapsto> l, 4 \<mapsto> l, 6 \<mapsto> n))(3 \<mapsto> w)"
    unfolding parses_pre_re by blast
  then show ?thesis
  proof cases
    case e
    with p have "c1 = c" by (simp add: pre_empty)
    moreover from e eq have "w' @ w'' = dot @ L0 @ N @ t" by simp
    from post_block[OF q d dot L0 N t this] have "L0 \<in> {''post'', ''dev''}" by auto
    ultimately show ?thesis using e by simp
  next
    case s
    have "tail_ok (w' @ w'')"
      using post_tail_ok[OF q dev_tail_ok[OF d, of "[]"]] by (simp add: tail_ok_def)
    then have u: "w' @ w'' = [] \<or> \<not> is_digit (hd (w' @ w''))" by (rule tail_ok_nd)
    from s(1) eq have e: "(s1 @ l @ s2 @ n) @ (w' @ w'') = dot @ L0 @ N @ t" by simp
    from seg_word[OF s(2,3) words_lower(1) s(4,5) od L0' N t u e] obtain L1 where
      b: "s1 = dot" "s2 = []" "l \<in> set pre_words" "L0 = l @ L1"
        "if L1 = [] then n = N \<and> w' @ w'' = t else n = [] \<and> w' @ w'' = L1 @ N @ t" by blast
    from pre_prefix[OF b(3) L0 b(4)] have "L0 \<in> {''a'', ''b'', ''rc''} \<and> l = L0 \<and> L1 = []" .
    then have L: "L0 \<in> {''a'', ''b'', ''rc''}" "l = L0" "L1 = []" by simp_all
    from b(5) L(3) have nu: "n = N" "w' @ w'' = t" by simp_all
    from s(1) b(1,2) L(2) nu(1) have w: "w = dot @ L0 @ N" by simp
    from N have "N \<noteq> []" by (simp add: is_number_def)
    with s(6) nu(1) L(2) have "c1 = c(5 \<mapsto> L0, 4 \<mapsto> L0, 6 \<mapsto> N, 3 \<mapsto> w)" by simp
    with L(1) w nu(2) show ?thesis by blast
  qed
qed

section \<open>The canonical string\<close>

lemma String_canonical:
  assumes "release v \<noteq> []"
  shows "String v = Some (canonical v)"
proof -
  from assms obtain r rs where r: "release v = r # rs" by (cases "release v") auto
  have "concat (map (\<lambda>r. ''.'' @ BigInt_String r) rs) =
        concat (map ((#) CHR ''.'') (map BigInt_String rs))" by (induction rs) simp_all
  with r show ?thesis
    by (simp add: String_def canonical_def str_core_def str_epoch_def str_release_def
        str_pre_def str_post_def str_dev_def str_local_def dotted_def)
qed

lemma BaseVersion_canonical:
  assumes "release v \<noteq> []"
  shows "BaseVersion v = Some (str_epoch v @ str_release v)"
proof -
  from assms obtain r rs where r: "release v = r # rs" by (cases "release v") auto
  have "concat (map (\<lambda>r. ''.'' @ BigInt_String r) rs) =
        concat (map ((#) CHR ''.'') (map BigInt_String rs))" by (induction rs) simp_all
  with r show ?thesis
    by (simp add: BaseVersion_def str_epoch_def str_release_def dotted_def)
qed

lemma wf_pre:
  assumes "wf_version v" "\<not> isNull (pre v)"
  shows "letter (pre v) \<in> {''a'', ''b'', ''rc''}"
  using assms by (auto simp: wf_version_def wf_ln_def isNull_def)

lemma wf_post:
  assumes "wf_version v" "\<not> isNull (post v)"
  shows "letter (post v) = ''post''"
  using assms by (auto simp: wf_version_def wf_ln_def isNull_def)

lemma wf_dev:
  assumes "wf_version v" "\<not> isNull (dev v)"
  shows "letter (dev v) = ''dev''"
  using assms by (auto simp: wf_version_def wf_ln_def isNull_def)

lemma isNull_zero: "isNull p \<Longrightarrow> letter p = [] \<and> number p = 0"
  by (simp add: isNull_def)

lemma parses_str_epoch: "parses epoch_re (str_epoch v) c
    (if epoch v > 0 then c(1 \<mapsto> BigInt_String (epoch v)) else c)"
  by (simp add: parses_epoch_re str_epoch_def is_number_BigInt_String)

lemma str_release_shape:
  "is_number (BigInt_String (hd (release v)))"
  "list_all is_number (map BigInt_String (tl (release v)))"
  by (simp_all add: is_number_BigInt_String list_all_iff)

lemma parses_str_release: "parses release_re (str_release v) c (c(2 \<mapsto> str_release v))"
  unfolding parses_release_re str_release_def using str_release_shape by blast

lemma parses_str_pre:
  assumes "wf_version v"
  shows "parses pre_re (str_pre v) c
    (if \<not> isNull (pre v)
     then c(5 \<mapsto> letter (pre v), 4 \<mapsto> letter (pre v),
            6 \<mapsto> BigInt_String (number (pre v)), 3 \<mapsto> str_pre v)
     else c)"
proof (cases "isNull (pre v)")
  case True
  then show ?thesis by (simp add: parses_pre_re str_pre_def)
next
  case False
  let ?l = "letter (pre v)" and ?n = "BigInt_String (number (pre v))"
  from wf_pre[OF assms False] have "ToLower ?l \<in> set pre_words"
    by (auto simp: pre_words_def ToLower_def to_lower_def is_upper_def less_eq_char_def)
  moreover have "list_all is_digit ?n" "?n \<noteq> []"
    using is_number_BigInt_String[of "number (pre v)"] by (simp_all add: is_number_def)
  moreover have "str_pre v = [] @ ?l @ [] @ ?n" using False by (simp add: str_pre_def)
  moreover have "opt_sep []" by (simp add: opt_sep_def)
  ultimately have "\<exists>s1 l s2 n. str_pre v = s1 @ l @ s2 @ n \<and> opt_sep s1 \<and>
      ToLower l \<in> set pre_words \<and> opt_sep s2 \<and> list_all is_digit n \<and>
      c(5 \<mapsto> ?l, 4 \<mapsto> ?l, 6 \<mapsto> ?n, 3 \<mapsto> str_pre v) =
        (if n = [] then c(5 \<mapsto> l, 4 \<mapsto> l) else c(5 \<mapsto> l, 4 \<mapsto> l, 6 \<mapsto> n))(3 \<mapsto> str_pre v)"
    by (intro exI[of _ "[]"] exI[of _ ?l] exI[of _ ?n]) simp
  with False show ?thesis unfolding parses_pre_re by simp
qed

lemma parses_str_post:
  assumes "wf_version v"
  shows "parses post_re (str_post v) c
    (if \<not> isNull (post v)
     then c(9 \<mapsto> ''post'', 10 \<mapsto> BigInt_String (number (post v)), 7 \<mapsto> str_post v)
     else c)"
proof (cases "isNull (post v)")
  case True
  then show ?thesis by (simp add: parses_post_re str_post_def)
next
  case False
  let ?n = "BigInt_String (number (post v))"
  have "ToLower ''post'' \<in> set post_words"
    by (simp add: post_words_def ToLower_def to_lower_def is_upper_def less_eq_char_def)
  moreover have "list_all is_digit ?n" "?n \<noteq> []"
    using is_number_BigInt_String[of "number (post v)"] by (simp_all add: is_number_def)
  moreover have "str_post v = ''.'' @ ''post'' @ [] @ ?n" using False by (simp add: str_post_def)
  moreover have "opt_sep []" "opt_sep ''.''" by (simp_all add: opt_sep_def is_sep_def)
  ultimately have "\<exists>s1 l s2 n. str_post v = s1 @ l @ s2 @ n \<and> opt_sep s1 \<and>
      ToLower l \<in> set post_words \<and> opt_sep s2 \<and> list_all is_digit n \<and>
      c(9 \<mapsto> ''post'', 10 \<mapsto> ?n, 7 \<mapsto> str_post v) =
        (if n = [] then c(9 \<mapsto> l) else c(9 \<mapsto> l, 10 \<mapsto> n))(7 \<mapsto> str_post v)"
    by (intro exI[of _ "''.''"] exI[of _ "''post''"] exI[of _ "[]"] exI[of _ ?n]) simp
  with False show ?thesis unfolding parses_post_re by simp
qed

lemma parses_str_dev:
  "parses dev_re (str_dev v) c
    (if \<not> isNull (dev v)
     then c(12 \<mapsto> ''dev'', 13 \<mapsto> BigInt_String (number (dev v)), 11 \<mapsto> str_dev v)
     else c)"
proof (cases "isNull (dev v)")
  case True
  then show ?thesis by (simp add: parses_dev_re str_dev_def)
next
  case False
  let ?n = "BigInt_String (number (dev v))"
  have "ToLower ''dev'' = ''dev''"
    by (simp add: ToLower_def to_lower_def is_upper_def less_eq_char_def)
  moreover have "list_all is_digit ?n" "?n \<noteq> []"
    using is_number_BigInt_String[of "number (dev v)"] by (simp_all add: is_number_def)
  moreover have "str_dev v = ''.'' @ ''dev'' @ [] @ ?n" using False by (simp add: str_dev_def)
  moreover have "opt_sep []" "opt_sep ''.''" by (simp_all add: opt_sep_def is_sep_def)
  ultimately have "\<exists>s1 l s2 n. str_dev v = s1 @ l @ s2 @ n \<and> opt_sep s1 \<and>
      ToLower l = ''dev'' \<and> opt_sep s2 \<and> list_all is_digit n \<and>
      c(12 \<mapsto> ''dev'', 13 \<mapsto> ?n, 11 \<mapsto> str_dev v) =
        (if n = [] then c(12 \<mapsto> l) else c(12 \<mapsto> l, 13 \<mapsto> n))(11 \<mapsto> str_dev v)"
    by (intro exI[of _ "''.''"] exI[of _ "''dev''"] exI[of _ "[]"] exI[of _ ?n]) simp
  with False show ?thesis unfolding parses_dev_re by simp
qed

lemma parses_str_local:
  assumes "wf_version v"
  shows "parses local_re (str_local v) c (if local v \<noteq> [] then c(14 \<mapsto> local v) else c)"
  using assms by (auto simp: parses_local_re str_local_def wf_version_def)

lemma parses_str_core:
  assumes "wf_version v"
  shows "parses core_re (str_core v) Map.empty (caps_dev v)"
proof -
  have 1: "parses epoch_re (str_epoch v) Map.empty (caps_epoch v)"
    using parses_str_epoch[of v Map.empty] by (simp add: caps_epoch_def)
  have 2: "parses release_re (str_release v) (caps_epoch v) (caps_release v)"
    unfolding caps_release_def by (rule parses_str_release)
  have 3: "parses pre_re (str_pre v) (caps_release v) (caps_pre v)"
    using parses_str_pre[OF assms, of "caps_release v"] by (simp add: caps_pre_def)
  have 4: "parses post_re (str_post v) (caps_pre v) (caps_post v)"
    using parses_str_post[OF assms, of "caps_pre v"] by (simp add: caps_post_def)
  have 5: "parses dev_re (str_dev v) (caps_post v) (caps_dev v)"
    using parses_str_dev[of v "caps_post v"] by (simp add: caps_dev_def)
  from 1 2 3 4 5 show ?thesis unfolding parses_core_re str_core_def by blast
qed

lemma parses_canonical:
  assumes "wf_version v"
  shows "parses versionRegex (canonical v) Map.empty (caps_local v)"
proof -
  have l: "parses local_re (str_local v) (caps_dev v) (caps_local v)"
    using parses_str_local[OF assms, of "caps_dev v"] by (simp add: caps_local_def)
  have "canonical v = [] @ [] @ str_core v @ str_local v @ []" by (simp add: canonical_def)
  moreover have "list_all is_space []" "opt_v []" by (simp_all add: opt_v_def)
  ultimately show ?thesis
    unfolding parses_versionRegex using parses_str_core[OF assms] l by blast
qed

section \<open>The characters of a match\<close>

lemma core_char_props:
  assumes "core_char c"
  shows "\<not> is_space c" "c \<noteq> CHR ''+''"
  using assms is_alnum_props(1,3) is_sep_props(1,5)
  by (auto simp: core_char_def is_space_def)

lemma seg_chars:
  assumes "opt_sep s1" "list_all is_alpha l" "opt_sep s2" "list_all is_digit n"
  shows "list_all core_char (s1 @ l @ s2 @ n)"
  using assms
  by (auto simp: opt_sep_def core_char_def list_all_iff is_alnum_def is_alpha_def)

lemma epoch_chars:
  assumes "parses epoch_re w c c'"
  shows "list_all core_char w \<and> (w = [] \<or> is_digit (hd w))"
proof -
  from assms consider "w = []" | d where "is_number d" "w = d @ ''!''"
    unfolding parses_epoch_re by blast
  then show ?thesis
  proof cases
    case 1
    then show ?thesis by simp
  next
    case 2
    then show ?thesis
      by (cases d) (auto simp: is_number_def core_char_def list_all_iff is_alnum_def)
  qed
qed

lemma release_chars:
  assumes "parses release_re w c c'"
  shows "list_all core_char w \<and> w \<noteq> [] \<and> is_digit (hd w)"
proof -
  from assms obtain x xs where w: "w = dotted x xs" "is_number x" "list_all is_number xs"
    unfolding parses_release_re by blast
  have "list_all core_char (concat (map ((#) CHR ''.'') xs))" using w(3)
    by (induction xs) (auto simp: is_number_def core_char_def list_all_iff is_alnum_def is_sep_def)
  moreover from w(2) have "list_all core_char x"
    by (auto simp: is_number_def core_char_def list_all_iff is_alnum_def)
  ultimately show ?thesis using w(1,2) by (cases x) (auto simp: dotted_def is_number_def)
qed

lemma pre_chars:
  assumes "parses pre_re w c c'"
  shows "list_all core_char w"
proof -
  from assms consider "w = []"
    | s1 l s2 n where "w = s1 @ l @ s2 @ n" "opt_sep s1" "ToLower l \<in> set pre_words"
      "opt_sep s2" "list_all is_digit n"
    unfolding parses_pre_re by blast
  then show ?thesis
  proof cases
    case 1
    then show ?thesis by simp
  next
    case 2
    from 2(3) words_lower(1) have "list_all is_alpha l"
      using ToLower_alpha[of l "ToLower l"] by auto
    with 2 show ?thesis by (simp only: seg_chars)
  qed
qed

lemma post_chars:
  assumes "parses post_re w c c'"
  shows "list_all core_char w"
proof -
  from assms consider "w = []" | n where "w = CHR ''-'' # n" "is_number n"
    | s1 l s2 n where "w = s1 @ l @ s2 @ n" "opt_sep s1" "ToLower l \<in> set post_words"
      "opt_sep s2" "list_all is_digit n"
    unfolding parses_post_re by blast
  then show ?thesis
  proof cases
    case 1
    then show ?thesis by simp
  next
    case 2
    then show ?thesis
      by (auto simp: is_number_def core_char_def list_all_iff is_alnum_def is_sep_def)
  next
    case 3
    from 3(3) words_lower(2) have "list_all is_alpha l"
      using ToLower_alpha[of l "ToLower l"] by auto
    with 3 show ?thesis by (simp only: seg_chars)
  qed
qed

lemma dev_chars:
  assumes "parses dev_re w c c'"
  shows "list_all core_char w"
proof -
  from assms consider "w = []"
    | s1 l s2 n where "w = s1 @ l @ s2 @ n" "opt_sep s1" "ToLower l = ''dev''"
      "opt_sep s2" "list_all is_digit n"
    unfolding parses_dev_re by blast
  then show ?thesis
  proof cases
    case 1
    then show ?thesis by simp
  next
    case 2
    from 2(3) words_lower(3) have "list_all is_alpha l"
      using ToLower_alpha[of l "''dev''"] by auto
    with 2 show ?thesis by (simp only: seg_chars)
  qed
qed

lemma core_chars:
  assumes "parses core_re w c c'"
  shows "list_all core_char w \<and> w \<noteq> [] \<and> is_digit (hd w)"
proof -
  from assms obtain we wr wpre wpost wdev c1 c2 c3 c4 where
    w: "w = we @ wr @ wpre @ wpost @ wdev" and
    p: "parses epoch_re we c c1" "parses release_re wr c1 c2" "parses pre_re wpre c2 c3"
       "parses post_re wpost c3 c4" "parses dev_re wdev c4 c'"
    unfolding parses_core_re by blast
  from epoch_chars[OF p(1)] release_chars[OF p(2)] pre_chars[OF p(3)] post_chars[OF p(4)]
    dev_chars[OF p(5)] w
  show ?thesis by (cases we) auto
qed

lemma is_local_chars:
  assumes "is_local l"
  shows "list_all (\<lambda>c. \<not> is_space c) l"
proof -
  from assms obtain x us where l: "l = x @ concat us" "is_word x"
    "list_all (\<lambda>u. \<exists>d y. u = d # y \<and> is_sep d \<and> is_word y) us"
    unfolding is_local_def by blast
  from l(2) have "list_all (\<lambda>c. \<not> is_space c) x"
    by (auto simp: is_word_def list_all_iff is_alnum_props(1))
  moreover from l(3) have "list_all (\<lambda>c. \<not> is_space c) (concat us)"
    by (induction us) (auto simp: is_word_def list_all_iff is_alnum_props(1) is_sep_props(1))
  ultimately show ?thesis using l(1) by simp
qed

lemma local_chars:
  assumes "parses local_re w c c'"
  shows "list_all (\<lambda>c. \<not> is_space c) w \<and> (w = [] \<or> hd w = CHR ''+'')"
proof -
  from assms consider "w = []" | l where "w = CHR ''+'' # l" "is_local l"
    unfolding parses_local_re by blast
  then show ?thesis
  proof cases
    case 1
    then show ?thesis by simp
  next
    case 2
    with is_local_chars[OF 2(2)] show ?thesis by (simp add: is_space_def)
  qed
qed

section \<open>The match of a canonical string is unique\<close>

lemma str_dev_nd: "str_dev v = [] \<or> \<not> is_digit (hd (str_dev v))"
  by (simp add: str_dev_def is_digit_def)

lemma str_post_dev_nd:
  "str_post v @ str_dev v = [] \<or> \<not> is_digit (hd (str_post v @ str_dev v))"
  by (simp add: str_dev_def str_post_def is_digit_def)

lemma str_tail_ok:
  assumes "wf_version v"
  shows "tail_ok (str_pre v @ str_post v @ str_dev v)"
proof -
  have "tail_ok []" by (simp add: tail_ok_def)
  from dev_tail_ok[OF parses_str_dev this] have "tail_ok (str_dev v)" by simp
  from post_tail_ok[OF parses_str_post[OF assms] this] have "tail_ok (str_post v @ str_dev v)" .
  from pre_tail_ok[OF parses_str_pre[OF assms] this] show ?thesis .
qed

lemma dev_step:
  assumes d: "parses dev_re w c c'" and eq: "w = str_dev v"
  shows "c' = (if \<not> isNull (dev v)
               then c(12 \<mapsto> ''dev'', 13 \<mapsto> BigInt_String (number (dev v)), 11 \<mapsto> str_dev v)
               else c)"
proof (cases "isNull (dev v)")
  case True
  with eq d show ?thesis by (simp add: str_dev_def dev_empty)
next
  case False
  with eq have e: "w = ''.'' @ ''dev'' @ BigInt_String (number (dev v)) @ []"
    by (simp add: str_dev_def)
  have "opt_sep ''.''" by (simp add: opt_sep_def is_sep_def)
  from dev_block[OF d this _ words_lower(3) is_number_BigInt_String _ e] False eq
  show ?thesis by simp
qed

lemma post_step:
  assumes q: "parses post_re w c c1" and d: "parses dev_re w' c1 c2"
    and eq: "w @ w' = str_post v @ str_dev v"
  shows "c1 = (if \<not> isNull (post v)
               then c(9 \<mapsto> ''post'', 10 \<mapsto> BigInt_String (number (post v)), 7 \<mapsto> str_post v)
               else c) \<and> w' = str_dev v"
proof (cases "isNull (post v)")
  case True
  note np = this
  show ?thesis
  proof (cases "isNull (dev v)")
    case True
    with np eq have "w = []" "w' = []" by (simp_all add: str_post_def str_dev_def)
    with q np True show ?thesis by (simp add: post_empty str_dev_def)
  next
    case False
    with np eq have e: "w @ w' = ''.'' @ ''dev'' @ BigInt_String (number (dev v)) @ []"
      by (simp add: str_post_def str_dev_def)
    from post_block[OF q d _ _ is_number_BigInt_String _ e]
    have "w = [] \<and> c1 = c" by simp
    with np eq show ?thesis by (simp add: str_post_def)
  qed
next
  case False
  then have e: "w @ w' = ''.'' @ ''post'' @ BigInt_String (number (post v)) @ str_dev v"
    using eq by (simp add: str_post_def)
  from post_block[OF q d _ _ is_number_BigInt_String str_dev_nd e]
  have "w = ''.'' @ ''post'' @ BigInt_String (number (post v))" "w' = str_dev v"
    "c1 = c(9 \<mapsto> ''post'', 10 \<mapsto> BigInt_String (number (post v)), 7 \<mapsto> w)" by simp_all
  with False show ?thesis by (simp add: str_post_def)
qed

lemma pre_step:
  assumes wf: "wf_version v"
    and p: "parses pre_re w c c1" and q: "parses post_re w' c1 c2"
    and d: "parses dev_re w'' c2 c3"
    and eq: "w @ w' @ w'' = str_pre v @ str_post v @ str_dev v"
  shows "c1 = (if \<not> isNull (pre v)
               then c(5 \<mapsto> letter (pre v), 4 \<mapsto> letter (pre v),
                      6 \<mapsto> BigInt_String (number (pre v)), 3 \<mapsto> str_pre v)
               else c) \<and> w' @ w'' = str_post v @ str_dev v"
proof (cases "isNull (pre v)")
  case True
  note np = this
  have "w = [] \<and> c1 = c"
  proof (cases "isNull (post v)")
    case True
    note nq = this
    show ?thesis
    proof (cases "isNull (dev v)")
      case True
      with np nq eq have "w = []" by (simp add: str_pre_def str_post_def str_dev_def)
      with p show ?thesis by (simp add: pre_empty)
    next
      case False
      with np nq eq have
        e: "w @ w' @ w'' = ''.'' @ ''dev'' @ BigInt_String (number (dev v)) @ []"
        by (simp add: str_pre_def str_post_def str_dev_def)
      from pre_block[OF p q d _ _ is_number_BigInt_String _ e] show ?thesis by simp
    qed
  next
    case False
    with np eq have
      e: "w @ w' @ w'' = ''.'' @ ''post'' @ BigInt_String (number (post v)) @ str_dev v"
      by (simp add: str_pre_def str_post_def)
    from pre_block[OF p q d _ _ is_number_BigInt_String str_dev_nd e] show ?thesis by simp
  qed
  with np eq show ?thesis by (simp add: str_pre_def)
next
  case False
  let ?l = "letter (pre v)"
  from wf_pre[OF wf False] have l: "?l \<in> {''a'', ''b'', ''rc''}" .
  then have l': "?l \<in> {''post'', ''dev'', ''a'', ''b'', ''rc''}" by blast
  from l have l'': "?l \<notin> {''post'', ''dev''}" by auto
  from False eq have
    e: "w @ w' @ w'' = [] @ ?l @ BigInt_String (number (pre v)) @ (str_post v @ str_dev v)"
    by (simp add: str_pre_def)
  from pre_block[OF p q d _ l' is_number_BigInt_String str_post_dev_nd e] l''
  have "w = ?l @ BigInt_String (number (pre v))" "w' @ w'' = str_post v @ str_dev v"
    "c1 = c(5 \<mapsto> ?l, 4 \<mapsto> ?l, 6 \<mapsto> BigInt_String (number (pre v)), 3 \<mapsto> w)"
    by simp_all
  with False show ?thesis by (simp add: str_pre_def)
qed

lemma tail_unique:
  assumes wf: "wf_version v"
    and p: "parses pre_re w (caps_release v) c1" and q: "parses post_re w' c1 c2"
    and d: "parses dev_re w'' c2 c3"
    and eq: "w @ w' @ w'' = str_pre v @ str_post v @ str_dev v"
  shows "c3 = caps_dev v"
proof -
  from pre_step[OF wf p q d eq] have 1: "c1 = caps_pre v" "w' @ w'' = str_post v @ str_dev v"
    by (simp_all add: caps_pre_def)
  from post_step[OF q d 1(2)] 1(1) have 2: "c2 = caps_post v" "w'' = str_dev v"
    by (simp_all add: caps_post_def)
  from dev_step[OF d 2(2)] 2(1) show ?thesis by (simp add: caps_dev_def)
qed

lemma canonical_unique:
  assumes wf: "wf_version v" and p: "parses versionRegex (canonical v) Map.empty c"
  shows "c = caps_local v"
proof -
  from match_pieces[OF p] obtain w0 wv we wr wpre wpost wdev wl w9 c1 c2 c3 c4 c5 where
    s: "canonical v = w0 @ wv @ (we @ wr @ wpre @ wpost @ wdev) @ wl @ w9" and
    w0: "list_all is_space w0" and wv: "opt_v wv" and w9: "list_all is_space w9" and
    pe: "parses epoch_re we Map.empty c1" and pr: "parses release_re wr c1 c2" and
    pp: "parses pre_re wpre c2 c3" and pq: "parses post_re wpost c3 c4" and
    pd: "parses dev_re wdev c4 c5" and pl: "parses local_re wl c5 c" .
  let ?wc = "we @ wr @ wpre @ wpost @ wdev"
  from pe pr pp pq pd have pc: "parses core_re ?wc Map.empty c5"
    unfolding parses_core_re by blast
  note cc = core_chars[OF parses_str_core[OF wf]]
  have cl: "parses local_re (str_local v) (caps_dev v) (caps_local v)"
    using parses_str_local[OF wf, of "caps_dev v"] by (simp add: caps_local_def)
  from cc obtain a r where a: "str_core v = a # r" "is_digit a" by (cases "str_core v") auto
  then have hd: "canonical v = a # r @ str_local v" by (simp add: canonical_def)
  have w0e: "w0 = []"
  proof (cases w0)
    case Nil
    then show ?thesis .
  next
    case (Cons x xs)
    with s hd w0 have "x = a" "is_space x" by simp_all
    with a(2) is_digit_props(1) show ?thesis by blast
  qed
  have wve: "wv = []"
  proof (cases wv)
    case Nil
    then show ?thesis .
  next
    case (Cons x xs)
    with s hd w0e wv have "x = a" "to_lower x = CHR ''v''" by (simp_all add: opt_v_def)
    with a(2) is_digit_props(3)[of a] show ?thesis by (simp add: is_digit_def)
  qed
  have nsp: "list_all (\<lambda>c. \<not> is_space c) (canonical v)"
    using cc local_chars[OF cl] core_char_props(1)
    by (auto simp: canonical_def list_all_iff)
  have w9e: "w9 = []"
  proof (cases w9)
    case Nil
    then show ?thesis .
  next
    case (Cons x xs)
    with w9 have "is_space x" by simp
    moreover from s Cons have "x \<in> set (canonical v)" by simp
    ultimately show ?thesis using nsp by (simp add: list_all_iff)
  qed
  from s w0e wve w9e have e: "str_core v @ str_local v = ?wc @ wl"
    by (simp add: canonical_def)
  have 1: "list_all (\<lambda>c. c \<noteq> CHR ''+'') (str_core v)"
    using cc core_char_props(2) by (auto simp: list_all_iff)
  have 2: "list_all (\<lambda>c. c \<noteq> CHR ''+'') ?wc"
    using core_chars[OF pc] core_char_props(2) by (auto simp: list_all_iff)
  have 3: "str_local v = [] \<or> \<not> hd (str_local v) \<noteq> CHR ''+''"
    using local_chars[OF cl] by simp
  have 4: "wl = [] \<or> \<not> hd wl \<noteq> CHR ''+''" using local_chars[OF pl] by simp
  from munch[OF 1 2 3 4 e] have core: "str_core v = ?wc" and loc: "wl = str_local v"
    by simp_all
  have tu: "tail_ok (wpre @ wpost @ wdev)"
  proof -
    have "tail_ok []" by (simp add: tail_ok_def)
    from dev_tail_ok[OF pd this] have "tail_ok wdev" by simp
    from pre_tail_ok[OF pp post_tail_ok[OF pq this]] show ?thesis .
  qed
  from pr obtain y ys where y: "wr = dotted y ys" "is_number y" "list_all is_number ys"
    "c2 = c1(2 \<mapsto> wr)" unfolding parses_release_re by blast
  have E: "str_epoch v = [] \<and> caps_epoch v = Map.empty \<or>
      (\<exists>N. is_number N \<and> str_epoch v = N @ ''!'' \<and> caps_epoch v = Map.empty(1 \<mapsto> N))"
    by (simp add: str_epoch_def caps_epoch_def is_number_BigInt_String)
  from core y(1) have eq: "str_epoch v @
      dotted (BigInt_String (hd (release v))) (map BigInt_String (tl (release v))) @
        (str_pre v @ str_post v @ str_dev v) =
      we @ dotted y ys @ (wpre @ wpost @ wdev)"
    by (simp add: str_core_def str_release_def)
  from epoch_unique[OF pe E str_release_shape str_tail_ok[OF wf] y(2,3) tu eq]
  have 5: "we = str_epoch v" "c1 = caps_epoch v"
    "dotted (BigInt_String (hd (release v))) (map BigInt_String (tl (release v))) @
        (str_pre v @ str_post v @ str_dev v) = dotted y ys @ (wpre @ wpost @ wdev)"
    by simp_all
  from dotted_unique[OF str_release_shape y(2,3) str_tail_ok[OF wf] tu 5(3)] y(1)
  have 6: "wr = str_release v" "wpre @ wpost @ wdev = str_pre v @ str_post v @ str_dev v"
    by (simp_all add: str_release_def)
  from y(4) 5(2) 6(1) have c2: "c2 = caps_release v" by (simp add: caps_release_def)
  from tail_unique[OF wf pp[unfolded c2] pq pd 6(2)] have c5: "c5 = caps_dev v" .
  show ?thesis
  proof (cases "local v = []")
    case True
    with loc have "wl = []" by (simp add: str_local_def)
    with pl have "c = c5" unfolding parses_local_re by simp
    with c5 True show ?thesis by (simp add: caps_local_def)
  next
    case False
    with loc have "wl = CHR ''+'' # local v" by (simp add: str_local_def)
    with pl have "c = c5(14 \<mapsto> local v)" unfolding parses_local_re by simp
    with c5 False show ?thesis by (simp add: caps_local_def)
  qed
qed

lemma lookup_canonical:
  "lookup preReleaseAliases ''a'' = ''a''" "lookup preReleaseAliases ''b'' = ''b''"
  "lookup preReleaseAliases ''rc'' = ''rc''" "lookup postReleaseAliases ''post'' = ''post''"
  by (simp_all add: lookup_def preReleaseAliases_def postReleaseAliases_def)

lemma ToLower_canonical:
  "ToLower ''a'' = ''a''" "ToLower ''b'' = ''b''" "ToLower ''rc'' = ''rc''"
  "ToLower ''post'' = ''post''" "ToLower ''dev'' = ''dev''"
  by (simp_all add: ToLower_def to_lower_def is_upper_def less_eq_char_def)

lemma submatch_caps_local:
  "submatch (caps_local v) 1 = (if epoch v > 0 then BigInt_String (epoch v) else [])"
  "submatch (caps_local v) 2 = str_release v"
  "submatch (caps_local v) 4 = (if \<not> isNull (pre v) then letter (pre v) else [])"
  "submatch (caps_local v) 6 = (if \<not> isNull (pre v) then BigInt_String (number (pre v)) else [])"
  "submatch (caps_local v) 8 = []"
  "submatch (caps_local v) 9 = (if \<not> isNull (post v) then ''post'' else [])"
  "submatch (caps_local v) 10 =
     (if \<not> isNull (post v) then BigInt_String (number (post v)) else [])"
  "submatch (caps_local v) 12 = (if \<not> isNull (dev v) then ''dev'' else [])"
  "submatch (caps_local v) 13 = (if \<not> isNull (dev v) then BigInt_String (number (dev v)) else [])"
  "submatch (caps_local v) 14 = local v"
  by (simp_all add: submatch_def caps_local_def caps_dev_def caps_post_def caps_pre_def
      caps_release_def caps_epoch_def)

lemma BigInt_String_nonempty: "BigInt_String n \<noteq> []"
  using is_number_BigInt_String[of n] by (simp add: is_number_def)

lemma vars_of_caps_local:
  assumes wf: "wf_version v"
  shows "vars_of_caps (caps_local v) =
     \<lparr>v_epoch = epoch v, v_release = release v,
      preL = letter (pre v), preN = number (pre v),
      postL = letter (post v), postN = number (post v),
      devL = letter (dev v), devN = number (dev v), v_local = local v\<rparr>"
proof -
  from wf have r: "release v \<noteq> []" by (simp add: wf_version_def)
  have 1: "num (submatch (caps_local v) 1) = epoch v"
    by (simp only: submatch_caps_local)
      (simp add: num_def decimal_BigInt_String BigInt_String_nonempty)
  have rel: "str_release v \<noteq> []"
    by (simp add: str_release_def dotted_def BigInt_String_nonempty)
  have "map decimal (Split (str_release v) CHR ''.'') =
       map decimal (BigInt_String (hd (release v)) # map BigInt_String (tl (release v)))"
    unfolding str_release_def by (simp only: Split_dotted[OF str_release_shape])
  also have "\<dots> = hd (release v) # tl (release v)"
    by (simp add: decimal_BigInt_String comp_def)
  also have "\<dots> = release v" using r by simp
  finally have 2: "(if submatch (caps_local v) 2 = [] then []
      else map decimal (Split (submatch (caps_local v) 2) CHR ''.'')) = release v"
    using rel by (simp add: submatch_caps_local)
  have 3: "(if submatch (caps_local v) 4 = [] then []
      else lookup preReleaseAliases (ToLower (submatch (caps_local v) 4))) = letter (pre v)"
  proof (cases "isNull (pre v)")
    case True
    then show ?thesis by (simp add: submatch_caps_local isNull_zero)
  next
    case False
    with wf_pre[OF wf False] show ?thesis
      by (auto simp: submatch_caps_local lookup_canonical ToLower_canonical)
  qed
  have 4: "num (submatch (caps_local v) 6) = number (pre v)"
    by (simp add: submatch_caps_local num_def decimal_BigInt_String BigInt_String_nonempty
        isNull_zero)
  have 5: "post_letter (caps_local v) = letter (post v)"
  proof (cases "isNull (post v)")
    case True
    then show ?thesis by (simp add: post_letter_def submatch_caps_local isNull_zero)
  next
    case False
    with wf_post[OF wf False] show ?thesis
      by (simp add: post_letter_def submatch_caps_local lookup_canonical ToLower_canonical)
  qed
  have 6: "(if submatch (caps_local v) 10 \<noteq> [] then decimal (submatch (caps_local v) 10)
      else num (submatch (caps_local v) 8)) = number (post v)"
    by (simp add: submatch_caps_local num_def decimal_BigInt_String BigInt_String_nonempty
        isNull_zero)
  have 7: "ToLower (submatch (caps_local v) 12) = letter (dev v)"
  proof (cases "isNull (dev v)")
    case True
    then show ?thesis by (simp add: submatch_caps_local isNull_zero ToLower_def)
  next
    case False
    with wf_dev[OF wf False] show ?thesis
      by (simp add: submatch_caps_local ToLower_canonical)
  qed
  have 8: "num (submatch (caps_local v) 13) = number (dev v)"
    by (simp add: submatch_caps_local num_def decimal_BigInt_String BigInt_String_nonempty
        isNull_zero)
  have 9: "ToLower (submatch (caps_local v) 14) = local v"
    using wf by (auto simp: submatch_caps_local wf_version_def ToLower_def)
  show ?thesis unfolding vars_of_caps_def by (simp only: 1 2 3 4 5 6 7 8 9)
qed

lemma letterNumber_eta: "\<lparr>letter = letter p, number = number p\<rparr> = (p::letterNumber)"
  by (cases p) simp

text \<open>The canonical string of a version of \<open>Parse\<close> parses to the same version.\<close>

lemma Parse_canonical:
  assumes wf: "wf_version v"
  shows "Parse (canonical v) = Inr (v\<lparr>original := canonical v\<rparr>)"
proof -
  have "FindStringSubmatch versionRegex (canonical v) = Some (caps_local v)"
    by (rule FindStringSubmatch_unique[OF parses_canonical[OF wf] canonical_unique[OF wf]])
  from Parse_of_match[OF this] have
    "Parse (canonical v) = Inr (version_of_vars (canonical v) (vars_of_caps (caps_local v)))" .
  also have "version_of_vars (canonical v) (vars_of_caps (caps_local v)) =
      v\<lparr>original := canonical v\<rparr>"
    using wf unfolding vars_of_caps_local[OF wf] version_of_vars_def wf_version_def
    by (cases v) (simp add: letterNumber_eta)
  finally show ?thesis .
qed

section \<open>The comparison of keys\<close>

lemma cmp_refl: "cmp x x = 0"
  by (simp add: cmp_def)

lemma cmp_prod: "cmp (a, b) (c, d) = (if cmp a c \<noteq> 0 then cmp a c else cmp b d)"
  by (auto simp: cmp_def)

lemma cmp_list:
  "cmp [] ([]::'a::linorder list) = 0"
  "cmp [] ((y::'a::linorder) # ys) = - 1"
  "cmp ((x::'a::linorder) # xs) [] = 1"
  "cmp ((x::'a::linorder) # xs) (y # ys) = (if cmp x y \<noteq> 0 then cmp x y else cmp xs ys)"
  by (auto simp: cmp_def)

lemma cmp_values: "cmp x y = - 1 \<or> cmp x y = 0 \<or> cmp x y = 1"
  by (simp add: cmp_def)

lemma cmp_less: "(cmp x y < 0) = (x < y)" "(cmp x y = 0) = (x = y)" "(cmp x y > 0) = (y < x)"
  by (auto simp: cmp_def)

lemma emb_release_BigInt: "emb_release (map BigInt ns) = ns"
  by (induction ns) simp_all

lemma parts_Compare_zeros: "parts_Compare (replicate j (BigInt 0)) (replicate j (BigInt 0)) = Some 0"
  by (induction j) (simp_all add: cmp_def)

lemma normd_Cons: "normd (a # as) \<Longrightarrow> normd as"
  by (auto simp: normd_def split: if_splits)

lemma normd_zero: "normd (0 # as) \<Longrightarrow> as \<noteq> []"
  by (auto simp: normd_def)

lemma release_left_empty:
  "normd bs \<Longrightarrow>
   parts_Compare (replicate (length bs + j) (BigInt 0)) (map BigInt bs @ replicate j (BigInt 0))
     = Some (cmp [] bs)"
proof (induction bs)
  case Nil
  then show ?case by (simp add: parts_Compare_zeros cmp_list)
next
  case (Cons b bs)
  show ?case
  proof (cases "b = 0")
    case True
    with Cons.prems have ne: "bs \<noteq> []" and n: "normd bs"
      using normd_zero normd_Cons by blast+
    from ne have "cmp [] bs = - 1" by (cases bs) (simp_all add: cmp_list)
    with Cons.IH[OF n] True show ?thesis by (simp add: cmp_list cmp_def)
  next
    case False
    then show ?thesis by (simp add: cmp_list cmp_def)
  qed
qed

lemma release_right_empty:
  "normd as \<Longrightarrow>
   parts_Compare (map BigInt as @ replicate i (BigInt 0)) (replicate (length as + i) (BigInt 0))
     = Some (cmp as [])"
proof (induction as)
  case Nil
  then show ?case by (simp add: parts_Compare_zeros cmp_list)
next
  case (Cons a as)
  show ?case
  proof (cases "a = 0")
    case True
    with Cons.prems have ne: "as \<noteq> []" and n: "normd as"
      using normd_zero normd_Cons by blast+
    from ne have "cmp as [] = 1" by (cases as) (simp_all add: cmp_list)
    with Cons.IH[OF n] True show ?thesis by (simp add: cmp_list cmp_def)
  next
    case False
    then show ?thesis by (simp add: cmp_list cmp_def)
  qed
qed

lemma release_padded:
  "normd as \<Longrightarrow> normd bs \<Longrightarrow> length as + i = length bs + j \<Longrightarrow>
   parts_Compare (map BigInt as @ replicate i (BigInt 0)) (map BigInt bs @ replicate j (BigInt 0))
     = Some (cmp as bs)"
proof (induction as arbitrary: bs i j)
  case Nil
  with release_left_empty[of bs j] show ?case by simp
next
  case (Cons a as)
  show ?case
  proof (cases bs)
    case Nil
    with Cons.prems release_right_empty[of "a # as" i] show ?thesis by simp
  next
    case (Cons b bs')
    with Cons.prems have "normd as" "normd bs'" "length as + i = length bs' + j"
      using normd_Cons by auto
    from Cons.IH[OF this] Cons show ?thesis by (simp add: cmp_list)
  qed
qed

lemma release_plain:
  "parts_Compare (map BigInt as) (map BigInt bs) = Some (cmp as bs)"
proof (induction as arbitrary: bs)
  case Nil
  then show ?case by (cases bs) (simp_all add: cmp_list)
next
  case (Cons a as)
  then show ?case by (cases bs) (simp_all add: cmp_list)
qed

lemma Padding_same: "Padding ps (length ps) p = ps"
  by (simp add: Padding_def)

lemma release_code:
  assumes "normd as" "normd bs"
  shows "parts_Compare (Padding (map BigInt as) (length (map BigInt bs)) Zero) (map BigInt bs)
     = Some (cmp as bs)"
proof (cases "length as \<le> length bs")
  case True
  with release_padded[OF assms, of "length bs - length as" 0] show ?thesis
    by (simp add: Padding_def Zero_def)
next
  case False
  then show ?thesis by (simp add: Padding_def release_plain)
qed

lemma release_both:
  assumes "normd as" "normd bs" "n = max (length as) (length bs)"
  shows "parts_Compare (Padding (map BigInt as) n Zero) (Padding (map BigInt bs) n Zero)
     = Some (cmp as bs)"
  using release_padded[OF assms(1,2), of "n - length as" "n - length bs"] assms(3)
  by (simp add: Padding_def Zero_def)

lemma ln_Compare:
  assumes "ln_key p" "ln_key q"
  shows "part_Compare p q = Some (cmp (emb_ln p) (emb_ln q))"
proof -
  from assms(1) consider "p = NegativeInfinity" | "p = Infinity"
    | l n where "p = Parts [PartString l, BigInt n]" unfolding ln_key_def by blast
  then show ?thesis
  proof cases
    case 1
    with assms(2) show ?thesis by (auto simp: ln_key_def cmp_def)
  next
    case 2
    with assms(2) show ?thesis by (auto simp: ln_key_def cmp_def)
  next
    case 3
    from assms(2) consider "q = NegativeInfinity" | "q = Infinity"
      | l' n' where "q = Parts [PartString l', BigInt n']" unfolding ln_key_def by blast
    then show ?thesis
    proof cases
      case 1
      with 3 show ?thesis by (simp add: cmp_def)
    next
      case 2
      with 3 show ?thesis by (simp add: cmp_def)
    next
      case 3
      with \<open>p = Parts [PartString l, BigInt n]\<close> show ?thesis
        by (simp add: cmp_prod cmp_refl)
    qed
  qed
qed

lemma token_Compare:
  assumes "is_token p" "is_token q"
  shows "part_Compare p q = Some (cmp (emb_token p) (emb_token q))"
  using assms by (auto simp: is_token_def cmp_prod cmp_refl) (simp_all add: cmp_def)

lemma tokens_Compare:
  "list_all is_token ps \<Longrightarrow> list_all is_token qs \<Longrightarrow>
   parts_Compare ps qs = Some (cmp (map emb_token ps) (map emb_token qs))"
proof (induction ps arbitrary: qs)
  case Nil
  then show ?case by (cases qs) (simp_all add: cmp_list)
next
  case (Cons p ps)
  show ?case
  proof (cases qs)
    case Nil
    then show ?thesis by (simp add: cmp_list)
  next
    case (Cons q qs')
    with Cons.prems have "is_token p" "is_token q" "list_all is_token ps" "list_all is_token qs'"
      by simp_all
    with Cons.IH[of qs'] token_Compare[of p q] Cons show ?thesis by (simp add: cmp_list)
  qed
qed

lemma local_Compare:
  assumes "local_key p" "local_key q"
  shows "part_Compare p q = Some (cmp (emb_local p) (emb_local q))"
proof -
  from assms(1) consider "p = NegativeInfinity" | ps where "p = Parts ps" "list_all is_token ps"
    unfolding local_key_def by blast
  then show ?thesis
  proof cases
    case 1
    with assms(2) show ?thesis by (auto simp: local_key_def cmp_def)
  next
    case 2
    from assms(2) consider "q = NegativeInfinity" | qs where "q = Parts qs" "list_all is_token qs"
      unfolding local_key_def by blast
    then show ?thesis
    proof cases
      case 1
      with 2 show ?thesis by (simp add: cmp_def)
    next
      case 2
      with \<open>p = Parts ps\<close> tokens_Compare[OF \<open>list_all is_token ps\<close> 2(2)] show ?thesis
        by (simp add: cmp_prod cmp_refl)
    qed
  qed
qed

section \<open>The comparison of versions\<close>

lemma normd_Normalize: "normd (rev (dropWhile (\<lambda>n. n = 0) (rev r)))"
proof (cases "dropWhile (\<lambda>n. n = 0) (rev r)")
  case Nil
  then show ?thesis by (simp add: normd_def)
next
  case (Cons x xs)
  then have "\<not> x = 0" using hd_dropWhile[of "\<lambda>n. n = 0" "rev r"] by simp
  with Cons show ?thesis by (simp add: normd_def)
qed

lemma Normalize_normd: "\<exists>ns. Normalize (BigIntSliceToParts r) = map BigInt ns \<and> normd ns"
proof -
  have "rev (dropWhile IsNull (rev (map BigInt r))) =
        map BigInt (rev (dropWhile (\<lambda>n. n = 0) (rev r)))"
    by (simp add: rev_map dropWhile_map comp_def)
  with normd_Normalize[of r] show ?thesis unfolding Normalize_def BigIntSliceToParts_def by blast
qed

lemma local_parts_tokens: "list_all is_token (local_parts ls)"
  by (induction ls) (auto simp: is_token_def split: option.splits)

lemma cmpkey_wf: "wf_key (cmpkey e r p q d l)"
proof -
  have "\<exists>ns. k_release (cmpkey e r p q d l) = map BigInt ns \<and> normd ns"
    using Normalize_normd[of r] by (simp add: cmpkey_def Let_def)
  moreover have "ln_key (k_pre (cmpkey e r p q d l))" "ln_key (k_post (cmpkey e r p q d l))"
    "ln_key (k_dev (cmpkey e r p q d l))"
    by (simp_all add: cmpkey_def Let_def ln_key_def)
  moreover have "local_key (k_local (cmpkey e r p q d l))"
    by (simp add: cmpkey_def Let_def local_key_def local_parts_tokens)
  ultimately show ?thesis unfolding wf_key_def by blast
qed

lemma key_compare_parts:
  assumes "parts_Compare (k_release k) (k_release o') = Some r2"
    and "part_Compare (k_pre k) (k_pre o') = Some r3"
    and "part_Compare (k_post k) (k_post o') = Some r4"
    and "part_Compare (k_dev k) (k_dev o') = Some r5"
    and "part_Compare (k_local k) (k_local o') = Some r6"
  shows "key_compare k o' =
    Some (if cmp (k_epoch k) (k_epoch o') \<noteq> 0 then cmp (k_epoch k) (k_epoch o')
          else if r2 \<noteq> 0 then r2 else if r3 \<noteq> 0 then r3 else if r4 \<noteq> 0 then r4
          else if r5 \<noteq> 0 then r5 else r6)"
  using assms by (simp add: key_compare_def)

lemma key_compare_padded:
  assumes "wf_key k1" "wf_key k2"
    and r: "k_release k1 = map BigInt as" "k_release k2 = map BigInt bs"
    and rel: "parts_Compare X Y = Some (cmp as bs)"
  shows "key_compare (k1\<lparr>k_release := X\<rparr>) (k2\<lparr>k_release := Y\<rparr>) = Some (cmp (emb k1) (emb k2))"
proof -
  let ?K1 = "k1\<lparr>k_release := X\<rparr>" and ?K2 = "k2\<lparr>k_release := Y\<rparr>"
  from assms(1,2) have c:
    "part_Compare (k_pre ?K1) (k_pre ?K2) = Some (cmp (emb_ln (k_pre k1)) (emb_ln (k_pre k2)))"
    "part_Compare (k_post ?K1) (k_post ?K2) = Some (cmp (emb_ln (k_post k1)) (emb_ln (k_post k2)))"
    "part_Compare (k_dev ?K1) (k_dev ?K2) = Some (cmp (emb_ln (k_dev k1)) (emb_ln (k_dev k2)))"
    "part_Compare (k_local ?K1) (k_local ?K2) =
       Some (cmp (emb_local (k_local k1)) (emb_local (k_local k2)))"
    unfolding wf_key_def by (simp_all add: ln_Compare local_Compare)
  from rel have 2: "parts_Compare (k_release ?K1) (k_release ?K2) = Some (cmp as bs)" by simp
  have e: "emb k1 = (k_epoch k1, as, emb_ln (k_pre k1), emb_ln (k_post k1), emb_ln (k_dev k1),
      emb_local (k_local k1))"
    "emb k2 = (k_epoch k2, bs, emb_ln (k_pre k2), emb_ln (k_post k2), emb_ln (k_dev k2),
      emb_local (k_local k2))"
    by (simp_all add: emb_def r emb_release_BigInt)
  show ?thesis
    unfolding key_compare_parts[OF 2 c] e by (simp add: cmp_prod)
qed

lemma key_compare_emb:
  assumes "wf_key k1" "wf_key k2"
  shows "key_compare (k1\<lparr>k_release := Padding (k_release k1) (length (k_release k2)) Zero\<rparr>)
           (k2\<lparr>k_release := Padding (k_release k2) (length (k_release k2)) Zero\<rparr>)
         = Some (cmp (emb k1) (emb k2))"
proof -
  from assms obtain as bs where r: "k_release k1 = map BigInt as" "normd as"
    "k_release k2 = map BigInt bs" "normd bs" unfolding wf_key_def by blast
  from release_code[OF r(2,4)] r(1,3) have
    "parts_Compare (Padding (k_release k1) (length (k_release k2)) Zero)
       (Padding (k_release k2) (length (k_release k2)) Zero) = Some (cmp as bs)"
    using Padding_same[of "map BigInt bs" Zero] by simp
  from key_compare_padded[OF assms r(1,3) this] show ?thesis .
qed

lemma key_compare_spec_emb:
  assumes "wf_key k1" "wf_key k2" "n = max (length (k_release k1)) (length (k_release k2))"
  shows "key_compare (k1\<lparr>k_release := Padding (k_release k1) n Zero\<rparr>)
           (k2\<lparr>k_release := Padding (k_release k2) n Zero\<rparr>)
         = Some (cmp (emb k1) (emb k2))"
proof -
  from assms obtain as bs where r: "k_release k1 = map BigInt as" "normd as"
    "k_release k2 = map BigInt bs" "normd bs" unfolding wf_key_def by blast
  from assms(3) r(1,3) have "n = max (length as) (length bs)" by simp
  from release_both[OF r(2,4) this] r(1,3) have
    "parts_Compare (Padding (k_release k1) n Zero) (Padding (k_release k2) n Zero) =
      Some (cmp as bs)" by simp
  from key_compare_padded[OF assms(1,2) r(1,3) this] show ?thesis .
qed

lemma wf_version_key: "wf_version v \<Longrightarrow> wf_key (key v)"
  by (simp add: wf_version_def cmpkey_wf)

lemma same_String_same_key:
  assumes "wf_version a" "wf_version b" "String a = String b"
  shows "key a = key b"
proof -
  from assms(1,2) have "String a = Some (canonical a)" "String b = Some (canonical b)"
    by (simp_all add: wf_version_def String_canonical)
  with assms(3) have e: "canonical a = canonical b" by simp
  from Parse_canonical[OF assms(1)] Parse_canonical[OF assms(2)] e
  have "a\<lparr>original := canonical a\<rparr> = b\<lparr>original := canonical a\<rparr>" by simp
  then have "key (a\<lparr>original := canonical a\<rparr>) = key (b\<lparr>original := canonical a\<rparr>)"
    by (rule arg_cong)
  then show ?thesis by simp
qed

lemma Compare_emb:
  assumes "wf_version a" "wf_version b"
  shows "Compare a b = Some (cmp (emb (key a)) (emb (key b)))"
proof -
  from assms have s: "String a = Some (canonical a)" "String b = Some (canonical b)"
    by (simp_all add: wf_version_def String_canonical)
  show ?thesis
  proof (cases "canonical a = canonical b")
    case True
    with s same_String_same_key[OF assms] have "key a = key b" by simp
    with True s show ?thesis by (simp add: Compare_def cmp_refl)
  next
    case False
    with s key_compare_emb[OF wf_version_key[OF assms(1)] wf_version_key[OF assms(2)]]
    show ?thesis by (simp add: Compare_def Let_def)
  qed
qed

lemma Compare_spec_emb:
  assumes "wf_version a" "wf_version b"
  shows "Compare_spec a b = Some (cmp (emb (key a)) (emb (key b)))"
proof -
  from assms have s: "String a = Some (canonical a)" "String b = Some (canonical b)"
    by (simp_all add: wf_version_def String_canonical)
  show ?thesis
  proof (cases "canonical a = canonical b")
    case True
    with s same_String_same_key[OF assms] have "key a = key b" by simp
    with True s show ?thesis by (simp add: Compare_spec_def cmp_refl)
  next
    case False
    with s key_compare_spec_emb[OF wf_version_key[OF assms(1)] wf_version_key[OF assms(2)] refl]
    show ?thesis by (simp add: Compare_spec_def Let_def)
  qed
qed

section \<open>Public and base versions\<close>

lemma wf_public_of: "wf_version v \<Longrightarrow> wf_version (public_of v)"
  by (simp add: wf_version_def public_of_def)

lemma wf_base_of: "wf_version v \<Longrightarrow> wf_version (base_of v)"
  by (simp add: wf_version_def base_of_def wf_ln_def)

lemma canonical_public_of: "canonical (public_of v) = str_core v"
  by (simp add: canonical_def public_of_def str_core_def str_epoch_def str_release_def
      str_pre_def str_post_def str_dev_def str_local_def)

lemma canonical_base_of: "canonical (base_of v) = str_epoch v @ str_release v"
  by (simp add: canonical_def base_of_def str_core_def str_epoch_def str_release_def
      str_pre_def str_post_def str_dev_def str_local_def isNull_def)

lemma Public_core:
  assumes "wf_version v"
  shows "Public v = Some (str_core v)"
proof -
  from assms have s: "String v = Some (str_core v @ str_local v)"
    by (simp add: wf_version_def String_canonical canonical_def)
  have 1: "list_all (\<lambda>c. c \<noteq> CHR ''+'') (str_core v)"
    using core_chars[OF parses_str_core[OF assms]] core_char_props(2)
    by (auto simp: list_all_iff)
  have 2: "str_local v = [] \<or> \<not> hd (str_local v) \<noteq> CHR ''+''"
    by (simp add: str_local_def)
  from takeWhile_munch[OF 1 2] s show ?thesis by (simp add: Public_def)
qed

lemma Parse_Public:
  assumes "wf_version v"
  shows "Parse (str_core v) = Inr (public_of v)"
proof -
  from Parse_canonical[OF wf_public_of[OF assms]] show ?thesis
    by (simp add: canonical_public_of) (simp add: public_of_def)
qed

lemma Parse_BaseVersion:
  assumes "wf_version v"
  shows "Parse (str_epoch v @ str_release v) = Inr (base_of v)"
proof -
  from Parse_canonical[OF wf_base_of[OF assms]] show ?thesis
    by (simp add: canonical_base_of) (simp add: base_of_def)
qed

lemma MustParse_Public:
  assumes "wf_version v"
  shows "Public v = Some (str_core v)" "MustParse (str_core v) = Some (public_of v)"
  using Public_core[OF assms] Parse_Public[OF assms] by (simp_all add: MustParse_def)

lemma MustParse_BaseVersion:
  assumes "wf_version v"
  shows "BaseVersion v = Some (str_epoch v @ str_release v)"
    "MustParse (str_epoch v @ str_release v) = Some (base_of v)"
  using BaseVersion_canonical[of v] Parse_BaseVersion[OF assms] assms
  by (simp_all add: MustParse_def wf_version_def)

section \<open>The comparisons return\<close>

lemma Compare_returns:
  assumes "wf_version a" "wf_version b"
  shows "\<exists>r. Compare a b = Some r"
  using Compare_emb[OF assms] by simp

lemma comparisons_return:
  assumes "wf_version a" "wf_version b"
  shows "\<exists>r. Equal a b = Some r" "\<exists>r. LessThan a b = Some r" "\<exists>r. GreaterThan a b = Some r"
    "\<exists>r. LessThanOrEqual a b = Some r" "\<exists>r. GreaterThanOrEqual a b = Some r"
  using Compare_emb[OF assms]
  by (simp_all add: Equal_def LessThan_def GreaterThan_def LessThanOrEqual_def
      GreaterThanOrEqual_def)

lemma base_Equal_eq:
  assumes "wf_version a" "wf_version b"
  shows "base_Equal a b = Equal (base_of a) (base_of b)"
  by (simp add: base_Equal_def MustParse_BaseVersion[OF assms(1)] MustParse_BaseVersion[OF assms(2)])

lemma base_Equal_returns:
  assumes "wf_version a" "wf_version b"
  shows "\<exists>r. base_Equal a b = Some r"
  using comparisons_return(1)[OF wf_base_of[OF assms(1)] wf_base_of[OF assms(2)]]
  by (simp add: base_Equal_eq[OF assms])

section \<open>The patterns of the constraints\<close>

lemma parses_specifierRegexp:
  assumes "parses specifierRegexp s c0 m"
  shows "\<exists>w0 op w1 ver w2. s = w0 @ op @ w1 @ ver @ w2 \<and>
      op \<in> set [''~='', ''==='', ''=='', ''!='', ''<='', ''>='', ''<'', ''>''] \<and>
      list_all is_space w0 \<and> list_all is_space w1 \<and> list_all (\<lambda>c. \<not> is_space c) ver \<and>
      list_all is_space w2 \<and> m = c0(2 \<mapsto> op, 1 \<mapsto> op, 3 \<mapsto> ver)"
proof -
  let ?ops = "[''~='', ''==='', ''=='', ''!='', ''<='', ''>='', ''<'', ''>'']"
  from assms obtain w0 op w1 ver w2 c1 c2 c3 c4 where
    s: "s = w0 @ op @ w1 @ ver @ w2" and
    1: "parses (Rep (Atom is_space)) w0 c0 c1" and
    2: "parses (Grp 1 (Grp 2 (Alts (map (Word Lit) ?ops)))) op c1 c2" and
    3: "parses (Rep (Atom is_space)) w1 c2 c3" and
    4: "parses (Grp 3 (Rep (Atom (\<lambda>c. \<not> is_space c)))) ver c3 c4" and
    5: "parses (Rep (Atom is_space)) w2 c4 m"
    unfolding specifierRegexp_def parses_Cat5 by blast
  from 1 have a: "list_all is_space w0" "c1 = c0" unfolding parses_Rep_Atom by simp_all
  have w: "?ops \<noteq> []" "[] \<notin> set ?ops" by simp_all
  from 2 have b: "op \<in> set ?ops" "c2 = c1(2 \<mapsto> op, 1 \<mapsto> op)"
    unfolding parses.simps(6) parses_Alts_words_Lit[OF w] by auto
  from 3 have c: "list_all is_space w1" "c3 = c2" unfolding parses_Rep_Atom by simp_all
  from 4 have d: "list_all (\<lambda>c. \<not> is_space c) ver" "c4 = c3(3 \<mapsto> ver)"
    unfolding parses.simps(6) parses_Rep_Atom by auto
  from 5 have e: "list_all is_space w2" "m = c4" unfolding parses_Rep_Atom by simp_all
  from s a b c d e show ?thesis by blast
qed

lemma specifierRegexp_groups:
  assumes "FindStringSubmatch specifierRegexp s = Some m"
  shows "submatch m 1 \<in> set [''~='', ''==='', ''=='', ''!='', ''<='', ''>='', ''<'', ''>'']"
    and "list_all (\<lambda>c. \<not> is_space c) (submatch m 3)"
proof -
  from parses_specifierRegexp[OF FindStringSubmatch_Some[OF assms]] obtain op ver where
    "op \<in> set [''~='', ''==='', ''=='', ''!='', ''<='', ''>='', ''<'', ''>'']"
    "list_all (\<lambda>c. \<not> is_space c) ver" "m = Map.empty(2 \<mapsto> op, 1 \<mapsto> op, 3 \<mapsto> ver)"
    by blast
  then show "submatch m 1 \<in> set [''~='', ''==='', ''=='', ''!='', ''<='', ''>='', ''<'', ''>'']"
    and "list_all (\<lambda>c. \<not> is_space c) (submatch m 3)"
    by (simp_all add: submatch_def)
qed

lemma prefixRegexp_group1:
  assumes "FindStringSubmatch prefixRegexp x = Some m"
  shows "is_number (submatch m 1)"
proof -
  let ?ws = "[''a'', ''b'', ''c'', ''rc'']"
  from FindStringSubmatch_Some[OF assms] have
    "parses (Cat (Grp 1 Digits) (Grp 2 (Cat (Alts (map (Word Lit) ?ws)) Digits))) x Map.empty m"
    unfolding prefixRegexp_def .
  from parses_CatD[OF this] obtain u v c1 where
    1: "parses (Grp 1 Digits) u Map.empty c1" and
    2: "parses (Grp 2 (Cat (Alts (map (Word Lit) ?ws)) Digits)) v c1 m"
    by blast
  from 1 have a: "is_number u" "c1 = Map.empty(1 \<mapsto> u)"
    unfolding parses.simps(6) parses_Digits by auto
  have w: "?ws \<noteq> []" "[] \<notin> set ?ws" by simp_all
  from 2 obtain c2 where "parses (Cat (Alts (map (Word Lit) ?ws)) Digits) v c1 c2"
    "m = c2(2 \<mapsto> v)" unfolding parses.simps(6) by blast
  then have "m = c1(2 \<mapsto> v)"
    unfolding parses.simps(3) parses_Alts_words_Lit[OF w] parses_Digits by auto
  with a show ?thesis by (simp add: submatch_def)
qed

section \<open>The first token of a version that parses\<close>

lemma Parse_first_char:
  assumes "Parse t = Inr s"
  shows "t \<noteq> [] \<and> (is_space (hd t) \<or> to_lower (hd t) = CHR ''v'' \<or> is_digit (hd t))"
proof -
  from assms obtain c where "FindStringSubmatch versionRegex t = Some c"
    unfolding Parse_cases by (auto split: option.splits)
  from match_pieces[OF FindStringSubmatch_Some[OF this]]
  obtain w0 wv we wr wpre wpost wdev wl w9 c1 c2 c3 c4 c5 where
    t: "t = w0 @ wv @ (we @ wr @ wpre @ wpost @ wdev) @ wl @ w9" and
    w0: "list_all is_space w0" and wv: "opt_v wv" and
    p: "parses epoch_re we Map.empty c1" "parses release_re wr c1 c2" "parses pre_re wpre c2 c3"
    "parses post_re wpost c3 c4" "parses dev_re wdev c4 c5" .
  from p have "parses core_re (we @ wr @ wpre @ wpost @ wdev) Map.empty c5"
    unfolding parses_core_re by blast
  from core_chars[OF this] obtain a r where
    a: "we @ wr @ wpre @ wpost @ wdev = a # r" "is_digit a"
    by (cases "we @ wr @ wpre @ wpost @ wdev") auto
  show ?thesis
  proof (cases w0)
    case (Cons x xs)
    with t w0 show ?thesis by simp
  next
    case Nil
    show ?thesis
    proof (cases wv)
      case (Cons x xs)
      with t Nil wv show ?thesis by (simp add: opt_v_def)
    next
      case Nil
      with t \<open>w0 = []\<close> a show ?thesis by simp
    qed
  qed
qed

lemma split_at_hd:
  "\<exists>ys. split_at d acc s = (rev acc @ takeWhile (\<lambda>c. c \<noteq> d) s) # ys"
proof (induction s arbitrary: acc)
  case Nil
  then show ?case by simp
next
  case (Cons a s)
  show ?case
  proof (cases "a = d")
    case True
    then show ?thesis by simp
  next
    case False
    with Cons[of "a # acc"] show ?thesis by simp
  qed
qed

lemma Split_hd: "\<exists>ys. Split s d = takeWhile (\<lambda>c. c \<noteq> d) s # ys"
  using split_at_hd[of d "[]" s] by (simp add: Split_def)

lemma not_post_dev:
  assumes "x \<noteq> []" "is_space (hd x) \<or> to_lower (hd x) = CHR ''v'' \<or> is_digit (hd x)"
  shows "\<not> HasPrefix x ''post'' \<and> \<not> HasPrefix x ''dev''"
proof -
  from assms(1) obtain a r where x: "x = a # r" by (cases x) auto
  with assms(2) have "a \<noteq> CHR ''p''" "a \<noteq> CHR ''d''"
    by (auto simp: is_space_def to_lower_def is_upper_def is_digit_def less_eq_char_def)
  with x show ?thesis by (auto simp: HasPrefix_def)
qed

lemma prefixElements_nonempty:
  assumes "Parse t = Inr s"
  shows "prefixElements (versionSplit t) \<noteq> []"
proof -
  from Parse_first_char[OF assms] have t: "t \<noteq> []"
    "is_space (hd t) \<or> to_lower (hd t) = CHR ''v'' \<or> is_digit (hd t)" by simp_all
  from Split_hd[of t "CHR ''.''"] obtain ys where
    sp: "Split t CHR ''.'' = takeWhile (\<lambda>c. c \<noteq> CHR ''.'') t # ys" by blast
  let ?x = "takeWhile (\<lambda>c. c \<noteq> CHR ''.'') t"
  from t have "hd t \<noteq> CHR ''.''"
    by (auto simp: is_space_def to_lower_def is_upper_def is_digit_def less_eq_char_def
        split: if_splits)
  with t(1) have x: "?x \<noteq> []" "hd ?x = hd t" by (cases t; simp)+
  show ?thesis
  proof (cases "FindStringSubmatch prefixRegexp ?x")
    case None
    with sp have "versionSplit t = ?x # versionSplit_parts ys" by (simp add: versionSplit_def)
    with not_post_dev[OF x(1)] x(2) t(2) show ?thesis by simp
  next
    case (Some m)
    with sp have v: "versionSplit t = submatch m 1 # submatch m 2 # versionSplit_parts ys"
      by (simp add: versionSplit_def)
    from prefixRegexp_group1[OF Some] have "submatch m 1 \<noteq> []" "is_digit (hd (submatch m 1))"
      by (cases "submatch m 1"; simp add: is_number_def)+
    with not_post_dev[of "submatch m 1"] v show ?thesis by simp
  qed
qed

section \<open>The ordering of pre-, post- and dev-releases\<close>

lemma chain_strictly_ascending:
  "(case parse_all [''1.0.dev1'', ''1.0a1'', ''1.0a1.post1.dev1'', ''1.0a1.post1'', ''1.0b1'',
        ''1.0rc1'', ''1.0'', ''1.0.post1'', ''1.1.dev1''] of
      None \<Rightarrow> False
    | Some vs \<Rightarrow> length vs = 9 \<and> strictly_ascending vs)"
  by code_simp

lemma parts_Compare_refl: "parts_Compare (map BigInt ns) (map BigInt ns) = Some 0"
  by (induction ns) (simp_all add: cmp_def)

lemma Normalize_BigInt: "\<exists>ns. Normalize (BigIntSliceToParts r) = map BigInt ns"
proof -
  have "rev (dropWhile IsNull (rev (map BigInt r))) =
        map BigInt (rev (dropWhile (\<lambda>n. n = 0) (rev r)))"
    by (simp add: rev_map dropWhile_map comp_def)
  then show ?thesis unfolding Normalize_def BigIntSliceToParts_def by blast
qed

lemma release_refl:
  "parts_Compare (Normalize (BigIntSliceToParts r)) (Normalize (BigIntSliceToParts r)) = Some 0"
  using Normalize_BigInt[of r] parts_Compare_refl by auto

lemma sentinel_dev_only:
  assumes "isNull p" "isNull q" "\<not> isNull d" "\<not> isNull p'"
  shows "key_compare (cmpkey e r p q d l) (cmpkey e r p' q' d' l') = Some (- 1)"
  using assms by (simp add: key_compare_def cmpkey_def Let_def release_refl cmp_def)

lemma sentinel_final:
  assumes "isNull p" "\<not> (isNull q \<and> \<not> isNull d)" "\<not> isNull p'"
  shows "key_compare (cmpkey e r p q d l) (cmpkey e r p' q' d' l') = Some 1"
  using assms by (simp add: key_compare_def cmpkey_def Let_def release_refl cmp_def)

lemma sentinel_post:
  assumes "isNull q" "\<not> isNull q'"
  shows "key_compare (cmpkey e r p q d l) (cmpkey e r p q' d' l') = Some (- 1)"
  using assms by (simp add: key_compare_def cmpkey_def Let_def release_refl cmp_def)

lemma sentinel_dev:
  assumes "isNull d" "\<not> isNull d'"
  shows "key_compare (cmpkey e r p q d l) (cmpkey e r p q d' l') = Some 1"
  using assms by (simp add: key_compare_def cmpkey_def Let_def release_refl cmp_def)

text \<open>
  Claim C3. The nine versions 1.0.dev1, 1.0a1, 1.0a1.post1.dev1, 1.0a1.post1, 1.0b1, 1.0rc1,
  1.0, 1.0.post1, 1.1.dev1 parse, and they are strictly ascending: on each of the 81 pairs
  \<open>Compare\<close> answers -1 when the first one stands earlier in the list, 0 when they are the
  same, 1 when the first one stands later, and \<open>LessThan\<close> is true exactly on the pairs whose
  first version stands earlier. The key has the sentinels that force this: a null pre with
  a null post and a dev is \<open>NegativeInfinity\<close>, any other null pre is \<open>Infinity\<close>, a null
  post is \<open>NegativeInfinity\<close>, a null dev is \<open>Infinity\<close>. And the sentinels decide the
  comparison of the keys, the one that \<open>Compare\<close> returns, for every epoch, release and
  local segment: a dev-only release is below every pre-release of the same release, a
  release with a null pre that is not dev-only is above every pre-release of it, a null
  post is below a post-release of the same release and pre, and a null dev is above a
  dev-release of the same release, pre and post.
\<close>

theorem C3_release_ordering:
  "(case parse_all [''1.0.dev1'', ''1.0a1'', ''1.0a1.post1.dev1'', ''1.0a1.post1'', ''1.0b1'',
        ''1.0rc1'', ''1.0'', ''1.0.post1'', ''1.1.dev1''] of
      None \<Rightarrow> False
    | Some vs \<Rightarrow> length vs = 9 \<and> strictly_ascending vs)
   \<and> k_pre (cmpkey e r p q d l) =
       (if isNull p \<and> isNull q \<and> \<not> isNull d then NegativeInfinity
        else if isNull p then Infinity
        else Parts [PartString (letter p), BigInt (number p)])
   \<and> k_post (cmpkey e r p q d l) =
       (if isNull q then NegativeInfinity else Parts [PartString (letter q), BigInt (number q)])
   \<and> k_dev (cmpkey e r p q d l) =
       (if isNull d then Infinity else Parts [PartString (letter d), BigInt (number d)])
   \<and> (isNull p \<and> isNull q \<and> \<not> isNull d \<and> \<not> isNull p' \<longrightarrow>
        key_compare (cmpkey e r p q d l) (cmpkey e r p' q' d' l') = Some (- 1))
   \<and> (isNull p \<and> \<not> (isNull q \<and> \<not> isNull d) \<and> \<not> isNull p' \<longrightarrow>
        key_compare (cmpkey e r p q d l) (cmpkey e r p' q' d' l') = Some 1)
   \<and> (isNull q \<and> \<not> isNull q' \<longrightarrow>
        key_compare (cmpkey e r p q d l) (cmpkey e r p q' d' l') = Some (- 1))
   \<and> (isNull d \<and> \<not> isNull d' \<longrightarrow>
        key_compare (cmpkey e r p q d l) (cmpkey e r p q d' l') = Some 1)"
proof -
  have "k_pre (cmpkey e r p q d l) =
       (if isNull p \<and> isNull q \<and> \<not> isNull d then NegativeInfinity
        else if isNull p then Infinity
        else Parts [PartString (letter p), BigInt (number p)])"
    by (simp add: cmpkey_def Let_def)
  moreover have "k_post (cmpkey e r p q d l) =
       (if isNull q then NegativeInfinity else Parts [PartString (letter q), BigInt (number q)])"
    by (simp add: cmpkey_def Let_def)
  moreover have "k_dev (cmpkey e r p q d l) =
       (if isNull d then Infinity else Parts [PartString (letter d), BigInt (number d)])"
    by (simp add: cmpkey_def Let_def)
  ultimately show ?thesis
    using chain_strictly_ascending sentinel_dev_only[of p q d p' e r l q' d' l']
      sentinel_final[of p q d p' e r l q' d' l'] sentinel_post[of q q' e r p d l d' l']
      sentinel_dev[of d d' e r p q l l']
    by blast
qed

theorem C3_release_ordering_witness:
  "key_compare
     (cmpkey 0 [1, 0] \<lparr>letter = [], number = 0\<rparr> \<lparr>letter = [], number = 0\<rparr>
        \<lparr>letter = ''dev'', number = 1\<rparr> [])
     (cmpkey 0 [1, 0] \<lparr>letter = ''a'', number = 1\<rparr> \<lparr>letter = [], number = 0\<rparr>
        \<lparr>letter = [], number = 0\<rparr> []) = Some (- 1)
   \<and> key_compare
     (cmpkey 0 [1, 0] \<lparr>letter = [], number = 0\<rparr> \<lparr>letter = [], number = 0\<rparr>
        \<lparr>letter = [], number = 0\<rparr> [])
     (cmpkey 0 [1, 0] \<lparr>letter = ''rc'', number = 1\<rparr> \<lparr>letter = [], number = 0\<rparr>
        \<lparr>letter = [], number = 0\<rparr> []) = Some 1
   \<and> key_compare
     (cmpkey 0 [1, 0] \<lparr>letter = ''a'', number = 1\<rparr> \<lparr>letter = [], number = 0\<rparr>
        \<lparr>letter = [], number = 0\<rparr> [])
     (cmpkey 0 [1, 0] \<lparr>letter = ''a'', number = 1\<rparr> \<lparr>letter = ''post'', number = 1\<rparr>
        \<lparr>letter = [], number = 0\<rparr> []) = Some (- 1)
   \<and> key_compare
     (cmpkey 0 [1, 0] \<lparr>letter = ''a'', number = 1\<rparr> \<lparr>letter = ''post'', number = 1\<rparr>
        \<lparr>letter = [], number = 0\<rparr> [])
     (cmpkey 0 [1, 0] \<lparr>letter = ''a'', number = 1\<rparr> \<lparr>letter = ''post'', number = 1\<rparr>
        \<lparr>letter = ''dev'', number = 1\<rparr> []) = Some 1"
  using C3_release_ordering [of 0 "[1, 0]" "\<lparr>letter = [], number = 0\<rparr>"
      "\<lparr>letter = [], number = 0\<rparr>" "\<lparr>letter = ''dev'', number = 1\<rparr>" "[]"
      "\<lparr>letter = ''a'', number = 1\<rparr>" "\<lparr>letter = [], number = 0\<rparr>"
      "\<lparr>letter = [], number = 0\<rparr>" "[]"]
    C3_release_ordering [of 0 "[1, 0]" "\<lparr>letter = [], number = 0\<rparr>"
      "\<lparr>letter = [], number = 0\<rparr>" "\<lparr>letter = [], number = 0\<rparr>" "[]"
      "\<lparr>letter = ''rc'', number = 1\<rparr>" "\<lparr>letter = [], number = 0\<rparr>"
      "\<lparr>letter = [], number = 0\<rparr>" "[]"]
    C3_release_ordering [of 0 "[1, 0]" "\<lparr>letter = ''a'', number = 1\<rparr>"
      "\<lparr>letter = [], number = 0\<rparr>" "\<lparr>letter = [], number = 0\<rparr>" "[]"
      "\<lparr>letter = ''a'', number = 1\<rparr>" "\<lparr>letter = ''post'', number = 1\<rparr>"
      "\<lparr>letter = [], number = 0\<rparr>" "[]"]
    C3_release_ordering [of 0 "[1, 0]" "\<lparr>letter = ''a'', number = 1\<rparr>"
      "\<lparr>letter = ''post'', number = 1\<rparr>" "\<lparr>letter = [], number = 0\<rparr>" "[]"
      "\<lparr>letter = ''a'', number = 1\<rparr>" "\<lparr>letter = ''post'', number = 1\<rparr>"
      "\<lparr>letter = ''dev'', number = 1\<rparr>" "[]"]
  by (simp add: isNull_def)

section \<open>Construction of constraints\<close>

lemma newConstraints_and_fails:
  "c \<in> set cs \<Longrightarrow> newConstraint c = Inl e \<Longrightarrow> \<exists>e'. newConstraints_and cs = Inl e'"
  by (induction cs) (auto split: sum.splits)

lemma newConstraints_or_fails:
  "vv \<in> set vvs \<Longrightarrow> c \<in> set (Split vv CHR '','') \<Longrightarrow> newConstraint c = Inl e \<Longrightarrow>
   \<exists>e'. newConstraints_or vvs = Inl e'"
proof (induction vvs)
  case Nil
  then show ?case by simp
next
  case (Cons a vvs)
  show ?case
  proof (cases "vv = a")
    case True
    with Cons.prems newConstraints_and_fails obtain e' where
      "newConstraints_and (Split a CHR '','') = Inl e'" by blast
    then show ?thesis by simp
  next
    case False
    with Cons obtain e' where "newConstraints_or vvs = Inl e'" by auto
    then show ?thesis by (auto split: sum.splits)
  qed
qed

lemma validate_compatible_single:
  "Parse t = Inr v \<Longrightarrow> length (release v) < 2 \<Longrightarrow> validate ''~='' t \<noteq> None"
  by (auto simp: validate_def Let_def split: sum.splits)

lemma NewConstraints_compatible_2:
  "(case NewConstraints ''~=2'' of Inl e \<Rightarrow> e = CompatibleNeedsTwoDigits | Inr c \<Rightarrow> False)"
  by code_simp

lemma Parse_2:
  "Parse ''2'' = Inr \<lparr>epoch = 0, release = [2], pre = \<lparr>letter = [], number = 0\<rparr>,
     post = \<lparr>letter = [], number = 0\<rparr>, dev = \<lparr>letter = [], number = 0\<rparr>, local = [],
     key = \<lparr>k_epoch = 0, k_release = [BigInt 2], k_pre = Infinity, k_post = NegativeInfinity,
             k_dev = Infinity, k_local = NegativeInfinity\<rparr>,
     preReleaseIncluded = False, original = ''2''\<rparr>"
  by code_simp

text \<open>
  Claim C9. \<open>NewConstraints "~=2"\<close> returns an error. In general the validation of a \<open>~=\<close>
  clause rejects a version with fewer than two release components, and a clause that fails
  makes the whole construction fail: no \<open>Constraints\<close> value is returned.
\<close>

theorem C9_compatible_needs_two_components:
  "NewConstraints ''~=2'' = Inl CompatibleNeedsTwoDigits
   \<and> (\<forall>t v. Parse t = Inr v \<and> length (release v) < 2 \<longrightarrow> validate ''~='' t \<noteq> None)
   \<and> (\<forall>s vv c e. vv \<in> set (split_bars [] s) \<and> c \<in> set (Split vv CHR '','')
          \<and> newConstraint c = Inl e \<longrightarrow> (\<exists>e'. NewConstraints s = Inl e'))"
proof -
  have 1: "NewConstraints ''~=2'' = Inl CompatibleNeedsTwoDigits"
    using NewConstraints_compatible_2 by (cases "NewConstraints ''~=2''") auto
  have 3: "\<exists>e'. NewConstraints s = Inl e'"
    if "vv \<in> set (split_bars [] s)" "c \<in> set (Split vv CHR '','')" "newConstraint c = Inl e"
    for s vv c e
  proof -
    from newConstraints_or_fails[OF that] obtain e' where
      "newConstraints_or (split_bars [] s) = Inl e'" by blast
    then show ?thesis by (simp add: NewConstraints_def)
  qed
  from 1 3 validate_compatible_single show ?thesis by blast
qed

theorem C9_compatible_needs_two_components_witness:
  "NewConstraints ''~=2'' = Inl CompatibleNeedsTwoDigits \<and> validate ''~='' ''2'' \<noteq> None"
proof -
  have "length (release \<lparr>epoch = 0, release = [2::nat], pre = \<lparr>letter = [], number = 0\<rparr>,
     post = \<lparr>letter = [], number = 0\<rparr>, dev = \<lparr>letter = [], number = 0\<rparr>, local = [],
     key = \<lparr>k_epoch = 0, k_release = [BigInt 2], k_pre = Infinity, k_post = NegativeInfinity,
             k_dev = Infinity, k_local = NegativeInfinity\<rparr>,
     preReleaseIncluded = False, original = ''2''\<rparr>) < 2" by simp
  with Parse_2 C9_compatible_needs_two_components show ?thesis by blast
qed

section \<open>Wildcard clauses\<close>

lemma wildcard_1_0_rejects_1:
  "(case (NewConstraints ''==1.0.*'', Parse ''1'') of
      (Inr c, Inr v) \<Rightarrow> Check c v
    | _ \<Rightarrow> None) = Some False"
  by code_simp

lemma wildcard_1_0a1_accepts_1_0b1:
  "(case (NewConstraints ''==1.0a1.*'', Parse ''1.0b1'') of
      (Inr c, Inr v) \<Rightarrow> Check c v
    | _ \<Rightarrow> None) = Some True"
  by code_simp

lemma wildcard_spec_values:
  "wildcard_spec (versionSplit ''1.0'') (versionSplit ''1'')
   \<and> \<not> wildcard_spec (versionSplit ''1.0a1'') (versionSplit ''1.0b1'')"
  by code_simp

text \<open>
  Claim C6, on the code. \<open>padVersion\<close> takes the trailing tokens of the right operand from the
  left one, so the clause \<open>==1.0.*\<close> does not match the version 1, which the match in the
  words of the spec does, and \<open>==1.0a1.*\<close> matches 1.0b1, which it does not.
\<close>

theorem C6_wildcard_right_rest_from_left:
  "(case (NewConstraints ''==1.0.*'', Parse ''1'') of
      (Inr c, Inr v) \<Rightarrow> Check c v
    | _ \<Rightarrow> None) = Some False
   \<and> wildcard_spec (versionSplit ''1.0'') (versionSplit ''1'')
   \<and> (case (NewConstraints ''==1.0a1.*'', Parse ''1.0b1'') of
      (Inr c, Inr v) \<Rightarrow> Check c v
    | _ \<Rightarrow> None) = Some True
   \<and> \<not> wildcard_spec (versionSplit ''1.0a1'') (versionSplit ''1.0b1'')"
  using wildcard_1_0_rejects_1 wildcard_1_0a1_accepts_1_0b1 wildcard_spec_values by blast

section \<open>Canonical strings\<close>

lemma String_original: "String (v\<lparr>original := s\<rparr>) = String v"
  by (cases "release v") (simp_all add: String_def)

lemma Parse_String:
  assumes "Parse s = Inr v"
  shows "String v = Some (canonical v)"
    and "Parse (canonical v) = Inr (v\<lparr>original := canonical v\<rparr>)"
proof -
  from Parse_wf(1)[OF assms] have wf: "wf_version v" .
  then have "release v \<noteq> []" by (simp add: wf_version_def)
  then show "String v = Some (canonical v)" by (rule String_canonical)
  from wf show "Parse (canonical v) = Inr (v\<lparr>original := canonical v\<rparr>)"
    by (rule Parse_canonical)
qed

lemma Parse_example: "Parse '' V2.0-RC.1'' =
  Inr \<lparr>epoch = 0, release = [2, 0], pre = \<lparr>letter = ''rc'', number = 1\<rparr>,
       post = \<lparr>letter = [], number = 0\<rparr>, dev = \<lparr>letter = [], number = 0\<rparr>,
       local = [],
       key = cmpkey 0 [2, 0] \<lparr>letter = ''rc'', number = 1\<rparr> \<lparr>letter = [], number = 0\<rparr>
               \<lparr>letter = [], number = 0\<rparr> [],
       preReleaseIncluded = False, original = '' V2.0-RC.1''\<rparr>"
  by code_simp

text \<open>
  Claim C4. For every string that \<open>Parse\<close> accepts, with the version \<open>v\<close>, \<open>String\<close> of \<open>v\<close>
  returns, \<open>Parse\<close> accepts the string \<open>s'\<close> that it returns, and \<open>String\<close> of the version
  parsed from \<open>s'\<close> is \<open>s'\<close> again. The version parsed from \<open>s'\<close> is \<open>v\<close> itself, with \<open>s'\<close>
  as its original text.
\<close>

theorem C4_canonicalization_idempotent:
  assumes "Parse s = Inr v"
  shows "\<exists>s'. String v = Some s' \<and> Parse s' = Inr (v\<lparr>original := s'\<rparr>) \<and>
              String (v\<lparr>original := s'\<rparr>) = Some s'"
  using Parse_String[OF assms] by (simp add: String_original)

theorem C4_canonicalization_idempotent_witness:
  "\<exists>v s'. Parse '' V2.0-RC.1'' = Inr v \<and> String v = Some s' \<and>
      Parse s' = Inr (v\<lparr>original := s'\<rparr>) \<and> String (v\<lparr>original := s'\<rparr>) = Some s'"
  using C4_canonicalization_idempotent[OF Parse_example] Parse_example by blast

section \<open>The order of versions\<close>

lemma Compare_parsed:
  assumes "Parse s = Inr a" "Parse t = Inr b"
  shows "Compare a b = Some (cmp (emb (key a)) (emb (key b)))"
  using Compare_emb[OF Parse_wf(1)[OF assms(1)] Parse_wf(1)[OF assms(2)]] .

lemma Compare_original: "Compare (a\<lparr>original := x\<rparr>) (b\<lparr>original := y\<rparr>) = Compare a b"
  by (cases "String a"; cases "String b") (simp_all add: Compare_def String_original)

lemma order_example:
  "(case (Parse ''1.0a1'', Parse ''1.0'', Parse ''1.0.post1'') of
      (Inr a, Inr b, Inr c) \<Rightarrow> LessThan a b = Some True \<and> LessThan b c = Some True
    | _ \<Rightarrow> False)"
  by code_simp

lemma compare_example:
  "(case (Parse ''1.0.1'', Parse ''1'', Parse ''1.0'', Parse ''v1.0'') of
      (Inr a, Inr b, Inr a', Inr b') \<Rightarrow> Compare a b = Some 1 \<and> String a' = String b'
    | _ \<Rightarrow> False)"
  by code_simp

text \<open>
  Claim C1. On the versions that \<open>Parse\<close> returns, exactly one of \<open>LessThan\<close>, \<open>Equal\<close> and
  \<open>GreaterThan\<close> holds of a pair, and \<open>LessThan\<close> is transitive. Moreover \<open>LessThan\<close> one way
  is \<open>GreaterThan\<close> the other way, and \<open>Equal\<close> is reflexive, symmetric and transitive.
\<close>

theorem C1_total_order:
  assumes "Parse s1 = Inr a" "Parse s2 = Inr b" "Parse s3 = Inr c"
  shows "((LessThan a b = Some True \<and> Equal a b = Some False \<and> GreaterThan a b = Some False) \<or>
          (LessThan a b = Some False \<and> Equal a b = Some True \<and> GreaterThan a b = Some False) \<or>
          (LessThan a b = Some False \<and> Equal a b = Some False \<and> GreaterThan a b = Some True))
       \<and> (LessThan a b = Some True \<and> LessThan b c = Some True \<longrightarrow> LessThan a c = Some True)
       \<and> LessThan a b = GreaterThan b a
       \<and> Equal a a = Some True
       \<and> Equal a b = Equal b a
       \<and> (Equal a b = Some True \<and> Equal b c = Some True \<longrightarrow> Equal a c = Some True)"
proof -
  let ?x = "emb (key a)" and ?y = "emb (key b)" and ?z = "emb (key c)"
  note ab = Compare_parsed[OF assms(1,2)] and bc = Compare_parsed[OF assms(2,3)]
    and ac = Compare_parsed[OF assms(1,3)] and ba = Compare_parsed[OF assms(2,1)]
    and aa = Compare_parsed[OF assms(1,1)]
  have l: "LessThan a b = Some (?x < ?y)" "LessThan b c = Some (?y < ?z)"
    "LessThan a c = Some (?x < ?z)"
    by (simp_all add: LessThan_def ab bc ac cmp_less)
  have e: "Equal a b = Some (?x = ?y)" "Equal b c = Some (?y = ?z)" "Equal a c = Some (?x = ?z)"
    "Equal b a = Some (?y = ?x)" "Equal a a = Some True"
    by (simp_all add: Equal_def ab bc ac ba aa cmp_less)
  have g: "GreaterThan a b = Some (?y < ?x)" "GreaterThan b a = Some (?x < ?y)"
    by (simp_all add: GreaterThan_def ab ba cmp_less)
  have 1: "(?x < ?y \<and> ?x \<noteq> ?y \<and> \<not> ?y < ?x) \<or> (\<not> ?x < ?y \<and> ?x = ?y \<and> \<not> ?y < ?x) \<or>
      (\<not> ?x < ?y \<and> ?x \<noteq> ?y \<and> ?y < ?x)"
    using less_linear[of ?x ?y] by auto
  have 2: "?x < ?y \<and> ?y < ?z \<longrightarrow> ?x < ?z" by auto
  from 1 2 show ?thesis unfolding l e g by (simp add: eq_commute)
qed

theorem C1_total_order_witness:
  "\<exists>a b c. Parse ''1.0a1'' = Inr a \<and> Parse ''1.0'' = Inr b \<and> Parse ''1.0.post1'' = Inr c \<and>
     LessThan a b = Some True \<and> LessThan b c = Some True \<and> LessThan a c = Some True \<and>
     Equal a b = Some False \<and> GreaterThan a b = Some False"
proof -
  from order_example obtain a b c where p: "Parse ''1.0a1'' = Inr a" "Parse ''1.0'' = Inr b"
    "Parse ''1.0.post1'' = Inr c" and l: "LessThan a b = Some True" "LessThan b c = Some True"
    by (auto split: sum.splits)
  from C1_total_order[OF p] l have "LessThan a c = Some True" "Equal a b = Some False"
    "GreaterThan a b = Some False" by auto
  with p l show ?thesis by blast
qed

text \<open>
  Claim C2. For two versions that \<open>Parse\<close> returns, \<open>Compare\<close> is the comparison in the words
  of the spec, \<open>Compare_spec\<close>: 0 when the canonical strings are equal, otherwise the
  comparison of the keys after both releases are padded with zeros to the longer of the two
  lengths. The code pads the release of the receiver to the length of the other one and
  the release of the other one to its own length, which changes nothing; the releases of
  the keys have no trailing zeros, so that the comparison with the shorter, unpadded
  release of the other one has the same result. \<open>Compare\<close> returns a value, and it does not
  read the original text.
\<close>

theorem C2_compare_pads_both_releases:
  assumes "Parse s = Inr a" "Parse t = Inr b"
  shows "Compare a b = Compare_spec a b
       \<and> (String a = String b \<longrightarrow> Compare a b = Some 0)
       \<and> (\<exists>r. Compare a b = Some r \<and> (r = - 1 \<or> r = 0 \<or> r = 1))
       \<and> Compare (a\<lparr>original := x\<rparr>) (b\<lparr>original := y\<rparr>) = Compare a b"
proof -
  note wa = Parse_wf(1)[OF assms(1)] and wb = Parse_wf(1)[OF assms(2)]
  have 1: "Compare a b = Compare_spec a b"
    by (simp add: Compare_emb[OF wa wb] Compare_spec_emb[OF wa wb])
  from wa have "String a = Some (canonical a)" by (simp add: wf_version_def String_canonical)
  then have 2: "String a = String b \<longrightarrow> Compare a b = Some 0"
    by (cases "String b") (simp_all add: Compare_def)
  have 3: "\<exists>r. Compare a b = Some r \<and> (r = - 1 \<or> r = 0 \<or> r = 1)"
    using Compare_emb[OF wa wb] cmp_values by blast
  from 1 2 3 show ?thesis by (simp add: Compare_original)
qed

theorem C2_compare_pads_both_releases_witness:
  "\<exists>a b a' b'. Parse ''1.0.1'' = Inr a \<and> Parse ''1'' = Inr b \<and>
     Compare a b = Some 1 \<and> Compare_spec a b = Some 1 \<and>
     Parse ''1.0'' = Inr a' \<and> Parse ''v1.0'' = Inr b' \<and> String a' = String b' \<and>
     Compare a' b' = Some 0"
proof -
  from compare_example obtain a b a' b' where p: "Parse ''1.0.1'' = Inr a" "Parse ''1'' = Inr b"
    and p': "Parse ''1.0'' = Inr a'" "Parse ''v1.0'' = Inr b'"
    and c: "Compare a b = Some 1" "String a' = String b'"
    by (auto split: sum.splits)
  from C2_compare_pads_both_releases[OF p, of "[]" "[]"] c(1)
  have "Compare_spec a b = Some 1" by metis
  moreover from C2_compare_pads_both_releases[OF p', of "[]" "[]"] c(2)
  have "Compare a' b' = Some 0" by blast
  ultimately show ?thesis using p p' c by blast
qed

section \<open>Checks return\<close>

section \<open>The operators return\<close>

lemma String_wf: "wf_version v \<Longrightarrow> String v = Some (canonical v)"
  by (simp add: wf_version_def String_canonical)

lemma MustParse_Parse: "Parse t = Inr s \<Longrightarrow> MustParse t = Some s"
  by (simp add: MustParse_def)

lemma specifierLessThan_returns:
  assumes "Parse t = Inr s" "wf_version v"
  shows "\<exists>r. specifierLessThan v t = Some r"
proof -
  note ws = Parse_wf(1)[OF assms(1)]
  from comparisons_return(2)[OF assms(2) ws] obtain lt where lt: "LessThan v s = Some lt" by blast
  from base_Equal_returns[OF assms(2) ws] obtain be where be: "base_Equal v s = Some be" by blast
  show ?thesis
    by (auto simp: specifierLessThan_def MustParse_Parse[OF assms(1)] lt be)
qed

lemma specifierGreaterThan_returns:
  assumes "Parse t = Inr s" "wf_version v"
  shows "\<exists>r. specifierGreaterThan v t = Some r"
proof -
  note ws = Parse_wf(1)[OF assms(1)]
  from comparisons_return(3)[OF assms(2) ws] obtain gt where gt: "GreaterThan v s = Some gt"
    by blast
  from base_Equal_returns[OF assms(2) ws] obtain be where be: "base_Equal v s = Some be" by blast
  show ?thesis
    by (auto simp: specifierGreaterThan_def MustParse_Parse[OF assms(1)] gt be)
qed

lemma specifierLessThanEqual_returns:
  assumes "Parse t = Inr s" "wf_version v"
  shows "\<exists>r. specifierLessThanEqual v t = Some r"
  using comparisons_return(4)[OF wf_public_of[OF assms(2)] Parse_wf(1)[OF assms(1)]]
  by (simp add: specifierLessThanEqual_def MustParse_Parse[OF assms(1)]
      MustParse_Public[OF assms(2)])

lemma specifierGreaterThanEqual_returns:
  assumes "Parse t = Inr s" "wf_version v"
  shows "\<exists>r. specifierGreaterThanEqual v t = Some r"
  using comparisons_return(5)[OF wf_public_of[OF assms(2)] Parse_wf(1)[OF assms(1)]]
  by (simp add: specifierGreaterThanEqual_def MustParse_Parse[OF assms(1)]
      MustParse_Public[OF assms(2)])

lemma specifierArbitrary_returns:
  assumes "wf_version v"
  shows "\<exists>r. specifierArbitrary v t = Some r"
  by (simp add: specifierArbitrary_def String_wf[OF assms])

lemma padVersion_returns:
  assumes "length right \<le> length left"
  shows "\<exists>l r. padVersion left right = Some (l, r)"
proof -
  have "length (filter isDigist right) \<le> length right" by simp
  with assms have "\<not> length (filter isDigist right) > length left" by linarith
  then show ?thesis by (simp add: padVersion_def Let_def)
qed

lemma specifierEqual_wildcard_returns:
  assumes "HasSuffix t ''.*''" "wf_version v"
  shows "\<exists>r. specifierEqual v t = Some r"
proof -
  let ?ss = "versionSplit (TrimSuffix t ''.*'')"
  let ?sp = "versionSplit (canonical (public_of v))"
  let ?sp' = "if length ?sp > length ?ss then take (length ?ss) ?sp else ?sp"
  have "length ?sp' \<le> length ?ss" by simp
  from padVersion_returns[OF this] obtain l r where p: "padVersion ?ss ?sp' = Some (l, r)"
    by blast
  show ?thesis
    unfolding specifierEqual_def
    by (simp only: assms(1) if_True MustParse_Public[OF assms(2)] option.case
        String_wf[OF wf_public_of[OF assms(2)]] Let_def p prod.case) simp
qed

lemma specifierEqual_plain_returns:
  assumes "\<not> HasSuffix t ''.*''" "Parse t = Inr s" "wf_version v"
  shows "\<exists>r. specifierEqual v t = Some r"
proof -
  note ws = Parse_wf(1)[OF assms(2)]
  from comparisons_return(1)[OF ws assms(3)] obtain e1 where e1: "Equal s v = Some e1" by blast
  from comparisons_return(1)[OF ws wf_public_of[OF assms(3)]] obtain e2 where
    e2: "Equal s (public_of v) = Some e2" by blast
  show ?thesis
    by (simp add: specifierEqual_def assms(1) MustParse_Parse[OF assms(2)]
        MustParse_Public[OF assms(3)] e1 e2)
qed

lemma HasSuffix_append: "HasSuffix (p @ x) x"
  by (simp add: HasSuffix_def)

lemma specifierCompatible_returns:
  assumes "Parse t = Inr s" "wf_version v"
  shows "\<exists>r. specifierCompatible v t = Some r"
proof -
  let ?prefix = "Join (butlast (prefixElements (versionSplit t))) ''.'' @ ''.*''"
  from specifierGreaterThanEqual_returns[OF assms] obtain ge where
    ge: "specifierGreaterThanEqual v t = Some ge" by blast
  from specifierEqual_wildcard_returns[OF HasSuffix_append assms(2)] obtain eq where
    eq: "specifierEqual v ?prefix = Some eq" by blast
  show ?thesis
    by (auto simp: specifierCompatible_def Let_def prefixElements_nonempty[OF assms(1)] ge eq)
qed

section \<open>The constraints that are constructed\<close>

lemma validate_None:
  assumes "validate op t = None"
  shows "\<exists>s. Parse (if HasSuffix t ''.*'' then TrimSuffix t ''.*'' else t) = Inr s"
    and "op \<noteq> ''=='' \<Longrightarrow> op \<noteq> ''!='' \<Longrightarrow> \<not> HasSuffix t ''.*''"
  using assms by (auto simp: validate_def Let_def split: sum.splits if_splits)

lemma map_of_operators:
  "map_of specifierOperators ''=='' = Some specifierEqual"
  "map_of specifierOperators ''!='' = Some specifierNotEqual"
  "map_of specifierOperators ''>'' = Some specifierGreaterThan"
  "map_of specifierOperators ''<'' = Some specifierLessThan"
  "map_of specifierOperators ''>='' = Some specifierGreaterThanEqual"
  "map_of specifierOperators ''<='' = Some specifierLessThanEqual"
  "map_of specifierOperators ''==='' = Some specifierArbitrary"
  "map_of specifierOperators ''~='' = Some specifierCompatible"
  by (simp_all add: specifierOperators_def)

lemma operator_returns:
  assumes op: "op \<in> set [''~='', ''==='', ''=='', ''!='', ''<='', ''>='', ''<'', ''>'']"
    and val: "op \<noteq> ''==='' \<Longrightarrow> validate op t = None"
    and wf: "wf_version v"
  shows "\<exists>f r. map_of specifierOperators op = Some f \<and> f v t = Some r"
proof -
  have eq: "\<exists>r. specifierEqual v t = Some r" if "validate op t = None"
  proof (cases "HasSuffix t ''.*''")
    case True
    then show ?thesis by (rule specifierEqual_wildcard_returns[OF _ wf])
  next
    case False
    with validate_None(1)[OF that] obtain s where "Parse t = Inr s" by auto
    from specifierEqual_plain_returns[OF False this wf] show ?thesis .
  qed
  have plain: "\<exists>s. Parse t = Inr s" if "op \<noteq> ''===''" "op \<noteq> ''==''" "op \<noteq> ''!=''"
    using validate_None[OF val[OF that(1)]] that(2,3) by auto
  from op consider "op = ''~=''" | "op = ''===''" | "op = ''==''" | "op = ''!=''"
    | "op = ''<=''" | "op = ''>=''" | "op = ''<''" | "op = ''>''" by auto
  then show ?thesis
  proof cases
    case 1
    with plain obtain s where "Parse t = Inr s" by auto
    from specifierCompatible_returns[OF this wf] 1 show ?thesis
      by (simp add: map_of_operators)
  next
    case 2
    with specifierArbitrary_returns[OF wf] show ?thesis by (simp add: map_of_operators)
  next
    case 3
    with val eq show ?thesis by (simp add: map_of_operators)
  next
    case 4
    with val eq show ?thesis by (auto simp: map_of_operators specifierNotEqual_def)
  next
    case 5
    with plain obtain s where "Parse t = Inr s" by auto
    from specifierLessThanEqual_returns[OF this wf] 5 show ?thesis
      by (simp add: map_of_operators)
  next
    case 6
    with plain obtain s where "Parse t = Inr s" by auto
    from specifierGreaterThanEqual_returns[OF this wf] 6 show ?thesis
      by (simp add: map_of_operators)
  next
    case 7
    with plain obtain s where "Parse t = Inr s" by auto
    from specifierLessThan_returns[OF this wf] 7 show ?thesis
      by (simp add: map_of_operators)
  next
    case 8
    with plain obtain s where "Parse t = Inr s" by auto
    from specifierGreaterThan_returns[OF this wf] 8 show ?thesis
      by (simp add: map_of_operators)
  qed
qed

lemma newConstraint_returns:
  assumes "newConstraint x = Inr c" "wf_version v"
  shows "\<exists>f r. c_operator c = Some f \<and> f v (c_version c) = Some r"
proof -
  from assms(1) obtain m where m: "FindStringSubmatch specifierRegexp x = Some m"
    by (auto simp: newConstraint_def split: option.splits)
  let ?op = "submatch m 1" and ?t = "submatch m 3"
  from assms(1) m have val: "(if ?op \<noteq> ''==='' then validate ?op ?t else None) = None"
    and c: "c = \<lparr>c_version = ?t, c_operator = map_of specifierOperators ?op, c_original = x\<rparr>"
    by (auto simp: newConstraint_def Let_def split: option.splits)
  from val have "?op \<noteq> ''==='' \<Longrightarrow> validate ?op ?t = None" by simp
  from operator_returns[OF specifierRegexp_groups(1)[OF m] this assms(2)] c
  show ?thesis by simp
qed

lemma newConstraints_and_returns:
  "newConstraints_and xs = Inr cs \<Longrightarrow> \<forall>c\<in>set cs. \<exists>x. newConstraint x = Inr c"
proof (induction xs arbitrary: cs)
  case Nil
  then show ?case by simp
next
  case (Cons x xs)
  then show ?case by (auto split: sum.splits)
qed

lemma newConstraints_or_returns:
  "newConstraints_or xs = Inr css \<Longrightarrow> \<forall>g\<in>set css. \<forall>c\<in>set g. \<exists>x. newConstraint x = Inr c"
proof (induction xs arbitrary: css)
  case Nil
  then show ?case by simp
next
  case (Cons x xs)
  from Cons.prems obtain g gs where g: "newConstraints_and (Split x CHR '','') = Inr g"
    "newConstraints_or xs = Inr gs" "css = g # gs"
    by (auto split: sum.splits)
  from newConstraints_and_returns[OF g(1)] Cons.IH[OF g(2)] g(3) show ?case by simp
qed

lemma andCheck_returns:
  "\<forall>c\<in>set cs. \<exists>r. check c v = Some r \<Longrightarrow> \<exists>r. andCheck v cs = Some r"
  by (induction cs) auto

lemma Check_groups_returns:
  "\<forall>g\<in>set css. \<exists>r. andCheck v g = Some r \<Longrightarrow> \<exists>r. Check_groups css v = Some r"
  by (induction css) auto

lemma check_example:
  "(case (NewConstraints ''~=2.2,!=2.5.*||>3'', Parse ''2.3+x'') of
      (Inr c, Inr v) \<Rightarrow> Check c v = Some True
    | _ \<Rightarrow> False)"
  by code_simp

text \<open>
  Claim C10. For every constraints value that \<open>NewConstraints\<close> returns and every version that
  \<open>Parse\<close> returns, \<open>Check\<close> returns a boolean: nothing in it panics. The reasons are the ones
  of the claim: every clause has its operator function, and this function returns on the
  stored version text; \<open>Public\<close> and \<open>BaseVersion\<close> of the version return strings that
  \<open>MustParse\<close> accepts; and the tokens kept for the prefix of a validated \<open>~=\<close> clause are not
  empty, so that the slice expression is in bounds.
\<close>

theorem C10_check_never_panics:
  assumes "NewConstraints e = Inr cs" "Parse s = Inr v"
  shows "(\<exists>r. Check cs v = Some r)
       \<and> (\<forall>g\<in>set (constraints cs). \<forall>c\<in>set g.
            \<exists>f r. c_operator c = Some f \<and> f v (c_version c) = Some r)
       \<and> (\<exists>p pv. Public v = Some p \<and> MustParse p = Some pv)
       \<and> (\<exists>b bv. BaseVersion v = Some b \<and> MustParse b = Some bv)
       \<and> (validate ''~='' t = None \<longrightarrow> prefixElements (versionSplit t) \<noteq> [])"
proof -
  note wf = Parse_wf(1)[OF assms(2)]
  from assms(1) have "newConstraints_or (split_bars [] e) = Inr (constraints cs)"
    by (auto simp: NewConstraints_def split: sum.splits)
  from newConstraints_or_returns[OF this] have
    1: "\<forall>g\<in>set (constraints cs). \<forall>c\<in>set g.
          \<exists>f r. c_operator c = Some f \<and> f v (c_version c) = Some r"
    using newConstraint_returns[OF _ wf] by blast
  then have "\<forall>g\<in>set (constraints cs). \<forall>c\<in>set g. \<exists>r. check c v = Some r"
    by (fastforce simp: check_def)
  then have "\<forall>g\<in>set (constraints cs). \<exists>r. andCheck v g = Some r"
    using andCheck_returns by blast
  from Check_groups_returns[OF this] have 2: "\<exists>r. Check cs v = Some r" by (simp add: Check_def)
  have 3: "\<exists>p pv. Public v = Some p \<and> MustParse p = Some pv"
    using MustParse_Public[OF wf] by blast
  have 4: "\<exists>b bv. BaseVersion v = Some b \<and> MustParse b = Some bv"
    using MustParse_BaseVersion[OF wf] by blast
  have 5: "validate ''~='' t = None \<longrightarrow> prefixElements (versionSplit t) \<noteq> []"
  proof
    assume v: "validate ''~='' t = None"
    from validate_None[OF v] obtain s where "Parse t = Inr s" by auto
    then show "prefixElements (versionSplit t) \<noteq> []" by (rule prefixElements_nonempty)
  qed
  from 1 2 3 4 5 show ?thesis by blast
qed

theorem C10_check_never_panics_witness:
  "\<exists>cs v. NewConstraints ''~=2.2,!=2.5.*||>3'' = Inr cs \<and> Parse ''2.3+x'' = Inr v \<and>
     Check cs v = Some True \<and> (\<exists>p pv. Public v = Some p \<and> MustParse p = Some pv)"
proof -
  from check_example obtain cs v where p: "NewConstraints ''~=2.2,!=2.5.*||>3'' = Inr cs"
    "Parse ''2.3+x'' = Inr v" and c: "Check cs v = Some True"
    by (auto split: sum.splits)
  from C10_check_never_panics[OF p, of "''2.2''"] have
    "\<exists>p pv. Public v = Some p \<and> MustParse p = Some pv" by blast
  with p c show ?thesis by blast
qed

section \<open>The clauses of strict comparison\<close>

lemma emb_less:
  "(emb k < emb k') =
     (emb5 k < emb5 k' \<or> emb5 k = emb5 k' \<and> emb_local (k_local k) < emb_local (k_local k'))"
  by (auto simp: emb_def emb5_def)

lemma emb_eq: "(emb k = emb k') = (emb5 k = emb5 k' \<and> emb_local (k_local k) = emb_local (k_local k'))"
  by (auto simp: emb_def emb5_def)

lemma k_local_cmpkey:
  "emb_local (k_local (cmpkey e r p q d l)) =
     (if l = [] then (0, []) else (1, map emb_token (local_parts (Split l CHR ''.''))))"
  by (simp add: cmpkey_def Let_def)

lemma emb5_cmpkey_local: "emb5 (cmpkey e r p q d l) = emb5 (cmpkey e r p q d [])"
  by (simp add: emb5_def cmpkey_def Let_def)

lemma emb5_public_of: "wf_version v \<Longrightarrow> emb5 (key (public_of v)) = emb5 (key v)"
  using emb5_cmpkey_local[of "epoch v" "release v" "pre v" "post v" "dev v" "local v"]
  by (simp add: public_of_def wf_version_def)

lemma local_public_of: "emb_local (k_local (key (public_of v))) = (0, [])"
  by (simp add: public_of_def k_local_cmpkey)

lemma local_wf:
  assumes "wf_version v"
  shows "emb_local (k_local (key v)) =
     (if local v = [] then (0, []) else (1, map emb_token (local_parts (Split (local v) CHR ''.''))))"
  using assms k_local_cmpkey[of "epoch v" "release v" "pre v" "post v" "dev v" "local v"]
  by (simp add: wf_version_def)

lemma LessThan_emb:
  assumes "wf_version a" "wf_version b"
  shows "LessThan a b = Some (emb (key a) < emb (key b))"
    "GreaterThan a b = Some (emb (key b) < emb (key a))"
    "Equal a b = Some (emb (key a) = emb (key b))"
  by (simp_all add: LessThan_def GreaterThan_def Equal_def Compare_emb[OF assms] cmp_less)

lemma LessThan_public:
  assumes "wf_version v" "wf_version s" "local s = []"
  shows "LessThan v s = LessThan (public_of v) s"
proof -
  have "\<not> x < (0::nat, [])" for x :: "nat \<times> (nat \<times> string \<times> nat) list"
    by (cases x) auto
  then show ?thesis
    unfolding LessThan_emb(1)[OF assms(1,2)] LessThan_emb(1)[OF wf_public_of[OF assms(1)] assms(2)]
      emb_less emb5_public_of[OF assms(1)] local_public_of local_wf[OF assms(2)]
    by (simp add: assms(3))
qed

lemma GreaterThan_public:
  assumes "wf_version v" "wf_version s" "local s = []"
  shows "GreaterThan v s =
     Some (GreaterThan (public_of v) s = Some True \<or>
           emb5 (key v) = emb5 (key s) \<and> local v \<noteq> [])"
proof -
  have "((0::nat, []) < emb_local (k_local (key v))) = (local v \<noteq> [])"
    by (simp add: local_wf[OF assms(1)])
  then show ?thesis
    unfolding LessThan_emb(2)[OF assms(1,2)] LessThan_emb(2)[OF wf_public_of[OF assms(1)] assms(2)]
      emb_less emb5_public_of[OF assms(1)] local_public_of local_wf[OF assms(2)]
    by (auto simp: assms(3))
qed

lemma emb5_base_of:
  "emb5 (key (base_of v)) =
     (epoch v, emb_release (Normalize (BigIntSliceToParts (release v))), (2, [], 0), (0, [], 0),
      (2, [], 0))"
  by (simp add: emb5_def base_of_def cmpkey_def Let_def isNull_def)

lemma emb5_wf:
  assumes "wf_version v"
  shows "fst (emb5 (key v)) = epoch v"
    "fst (snd (emb5 (key v))) = emb_release (Normalize (BigIntSliceToParts (release v)))"
  using assms by (simp_all add: emb5_def wf_version_def cmpkey_def Let_def)

lemma base_Equal_emb:
  assumes "wf_version v" "wf_version s"
  shows "base_Equal v s =
     Some (epoch v = epoch s \<and>
           emb_release (Normalize (BigIntSliceToParts (release v))) =
           emb_release (Normalize (BigIntSliceToParts (release s))))"
  unfolding base_Equal_eq[OF assms] LessThan_emb(3)[OF wf_base_of[OF assms(1)] wf_base_of[OF assms(2)]]
    emb_eq emb5_base_of
  by (simp add: base_of_def k_local_cmpkey)

lemma same_emb5_same_base:
  assumes "wf_version v" "wf_version s" "emb5 (key v) = emb5 (key s)"
  shows "base_Equal v s = Some True"
  using emb5_wf[OF assms(1)] emb5_wf[OF assms(2)] assms(3)
  by (simp add: base_Equal_emb[OF assms(1,2)])

lemma specifierLessThan_spec:
  assumes "Parse t = Inr s" "local s = []" "wf_version v"
  shows "specifierLessThan v t = less_than_spec v s"
proof -
  note ws = Parse_wf(1)[OF assms(1)]
  from comparisons_return(2)[OF wf_public_of[OF assms(3)] ws] obtain lt where
    lt: "LessThan (public_of v) s = Some lt" by blast
  from base_Equal_returns[OF assms(3) ws] obtain be where be: "base_Equal v s = Some be" by blast
  show ?thesis
    by (auto simp: specifierLessThan_def less_than_spec_def MustParse_Parse[OF assms(1)]
        MustParse_Public[OF assms(3)] LessThan_public[OF assms(3) ws assms(2)] lt be)
qed

lemma specifierGreaterThan_spec:
  assumes "Parse t = Inr s" "local s = []" "wf_version v"
  shows "specifierGreaterThan v t = greater_than_spec v s"
proof -
  note ws = Parse_wf(1)[OF assms(1)]
  from comparisons_return(3)[OF wf_public_of[OF assms(3)] ws] obtain gp where
    gp: "GreaterThan (public_of v) s = Some gp" by blast
  from base_Equal_returns[OF assms(3) ws] obtain be where be: "base_Equal v s = Some be" by blast
  have same: "emb5 (key v) = emb5 (key s) \<Longrightarrow> be"
    using same_emb5_same_base[OF assms(3) ws] be by simp
  show ?thesis
    using same
    by (auto simp: specifierGreaterThan_def greater_than_spec_def MustParse_Parse[OF assms(1)]
        MustParse_Public[OF assms(3)] GreaterThan_public[OF assms(3) ws assms(2)] gp be)
qed

lemma validate_strict:
  assumes "validate ''<'' t = None \<or> validate ''>'' t = None"
  shows "\<exists>s. Parse t = Inr s \<and> local s = []"
  using assms by (auto simp: validate_def Let_def split: sum.splits if_splits)

lemma strict_examples:
  "(case (NewConstraints ''<3.1'', Parse ''3.1.dev0'', Parse ''3.0.dev0'') of
      (Inr c, Inr a, Inr b) \<Rightarrow> Check c a = Some False \<and> Check c b = Some True
    | _ \<Rightarrow> False)"
  "(case (NewConstraints ''>3.1'', Parse ''3.1.post0'', Parse ''3.1+x'', Parse ''3.2.post0'') of
      (Inr c, Inr a, Inr b, Inr d) \<Rightarrow>
        Check c a = Some False \<and> Check c b = Some False \<and> Check c d = Some True
    | _ \<Rightarrow> False)"
  by code_simp+

lemma strict_witness_example:
  "(case (Parse ''3.1'', Parse ''3.1.dev0'') of
      (Inr s, Inr v) \<Rightarrow> local s = [] \<and> specifierLessThan v ''3.1'' = Some False
    | _ \<Rightarrow> False)"
  by code_simp

text \<open>
  Claim C7. For a clause text \<open>t\<close> that parses to a version \<open>s\<close> without a local segment, as
  \<open>validate\<close> demands of a \<open><\<close> or \<open>></\<close> clause, and a version \<open>v\<close> that \<open>Parse\<close> returns,
  \<open>specifierLessThan\<close> and \<open>specifierGreaterThan\<close> are the functions of the spec,
  \<open>less_than_spec\<close> and \<open>greater_than_spec\<close>: the strict comparison of the public version
  of \<open>v\<close> with \<open>s\<close>, and the exclusions. Both return. The clause \<open><3.1\<close> rejects 3.1.dev0 and
  accepts 3.0.dev0; the clause \<open>>3.1\<close> rejects 3.1.post0 and 3.1+x and accepts 3.2.post0.
\<close>

theorem C7_strict_comparison_on_public_versions:
  assumes "Parse t = Inr s" "local s = []" "Parse u = Inr v"
  shows "specifierLessThan v t = less_than_spec v s
       \<and> specifierGreaterThan v t = greater_than_spec v s
       \<and> (\<exists>r. less_than_spec v s = Some r) \<and> (\<exists>r. greater_than_spec v s = Some r)
       \<and> (validate ''<'' t' = None \<or> validate ''>'' t' = None \<longrightarrow>
            (\<exists>s'. Parse t' = Inr s' \<and> local s' = []))
       \<and> (case (NewConstraints ''<3.1'', Parse ''3.1.dev0'', Parse ''3.0.dev0'') of
             (Inr c, Inr a, Inr b) \<Rightarrow> Check c a = Some False \<and> Check c b = Some True
           | _ \<Rightarrow> False)
       \<and> (case (NewConstraints ''>3.1'', Parse ''3.1.post0'', Parse ''3.1+x'',
                  Parse ''3.2.post0'') of
             (Inr c, Inr a, Inr b, Inr d) \<Rightarrow>
               Check c a = Some False \<and> Check c b = Some False \<and> Check c d = Some True
           | _ \<Rightarrow> False)"
proof -
  note wv = Parse_wf(1)[OF assms(3)]
  note l = specifierLessThan_spec[OF assms(1,2) wv]
  note g = specifierGreaterThan_spec[OF assms(1,2) wv]
  from specifierLessThan_returns[OF assms(1) wv] l have 1: "\<exists>r. less_than_spec v s = Some r"
    by simp
  from specifierGreaterThan_returns[OF assms(1) wv] g have
    2: "\<exists>r. greater_than_spec v s = Some r" by simp
  have 3: "validate ''<'' t' = None \<or> validate ''>'' t' = None \<longrightarrow>
      (\<exists>s'. Parse t' = Inr s' \<and> local s' = [])"
    using validate_strict by blast
  from l g 1 2 3 strict_examples show ?thesis by blast
qed

theorem C7_strict_comparison_on_public_versions_witness:
  "\<exists>s v. Parse ''3.1'' = Inr s \<and> Parse ''3.1.dev0'' = Inr v \<and> local s = [] \<and>
     specifierLessThan v ''3.1'' = Some False \<and> less_than_spec v s = Some False"
proof -
  from strict_witness_example obtain s v where p: "Parse ''3.1'' = Inr s" "local s = []"
    "Parse ''3.1.dev0'' = Inr v" and c: "specifierLessThan v ''3.1'' = Some False"
    by (auto split: sum.splits)
  from C7_strict_comparison_on_public_versions[OF p, of "''3.1''"] c
  have "less_than_spec v s = Some False" by metis
  with p c show ?thesis by blast
qed

section \<open>The first path of a match\<close>

lemma rep_matches_stop:
  assumes "s = [] \<or> \<not> p (hd s)"
  shows "rep_matches (matches (Atom p)) n (s, c) = [(s, c)]"
  using assms by (cases n; cases s) auto

lemma matches_Rep_stop:
  assumes "s = [] \<or> \<not> p (hd s)"
  shows "matches (Rep (Atom p)) (s, c) = [(s, c)]"
  using rep_matches_stop[where s = s and p = p, OF assms] by simp

lemma rep_matches_all:
  "list_all p s \<Longrightarrow> length s \<le> n \<Longrightarrow>
   \<exists>rest. rep_matches (matches (Atom p)) n (s, c) = ([], c) # rest"
proof (induction n arbitrary: s)
  case 0
  then show ?case by simp
next
  case (Suc n)
  show ?case
  proof (cases s)
    case Nil
    then show ?thesis by simp
  next
    case (Cons a s')
    with Suc.prems have "list_all p s'" "length s' \<le> n" "p a" by simp_all
    from Suc.IH[OF this(1,2)] obtain rest where
      r: "rep_matches (matches (Atom p)) n (s', c) = ([], c) # rest" by blast
    have f: "matches (Atom p) (a # s', c) = [(s', c)]" using \<open>p a\<close> by simp
    have "rep_matches (matches (Atom p)) (Suc n) (a # s', c) =
        rep_matches (matches (Atom p)) n (s', c) @ [(a # s', c)]"
      unfolding rep_matches.simps f by (simp del: matches.simps)
    with r Cons show ?thesis by (simp del: matches.simps rep_matches.simps)
  qed
qed

lemma matches_Rep_all:
  assumes "list_all p s"
  shows "\<exists>rest. matches (Rep (Atom p)) (s, c) = ([], c) # rest"
  using rep_matches_all[OF assms, of "length s" c] by simp

lemma matches_Cat_hd:
  assumes "matches r1 x = y # ys" "matches r2 y = z # zs"
  shows "\<exists>rest. matches (Cat r1 r2) x = z # rest"
  using assms by simp

lemma matches_Grp_hd:
  assumes "matches r x = y # ys"
  shows "\<exists>rest. matches (Grp i r) x =
     (fst y, (snd y)(i \<mapsto> take (length (fst x) - length (fst y)) (fst x))) # rest"
  using assms by simp

lemma matches_operator:
  "\<exists>rest. matches (Grp 1 (Grp 2 (Alts (map (Word Lit)
       [''~='', ''==='', ''=='', ''!='', ''<='', ''>='', ''<'', ''>''])))) (''==='' @ t, c)
     = (t, c(2 \<mapsto> ''==='', 1 \<mapsto> ''===''))  # rest"
  by (simp add: Lit_def)

lemma FindStringSubmatch_arbitrary:
  assumes "list_all (\<lambda>c. \<not> is_space c) t"
  shows "FindStringSubmatch specifierRegexp (''==='' @ t) =
     Some [2 \<mapsto> ''==='', 1 \<mapsto> ''==='', 3 \<mapsto> t]"
proof -
  let ?sp = "Rep (Atom is_space)"
  let ?c1 = "[2 \<mapsto> ''==='', 1 \<mapsto> ''===''] :: caps"
  have 5: "matches ?sp ([], ?c1(3 \<mapsto> t)) = [([], ?c1(3 \<mapsto> t))]"
    by (rule matches_Rep_stop) simp
  from matches_Rep_all[OF assms, of ?c1] obtain r4 where
    "matches (Rep (Atom (\<lambda>c. \<not> is_space c))) (t, ?c1) = ([], ?c1) # r4" by blast
  from matches_Grp_hd[OF this, of 3] obtain r4' where
    4: "matches (Grp 3 (Rep (Atom (\<lambda>c. \<not> is_space c)))) (t, ?c1) = ([], ?c1(3 \<mapsto> t)) # r4'"
    by auto
  from matches_Cat_hd[OF 4 5] obtain r45 where
    45: "matches (Cat (Grp 3 (Rep (Atom (\<lambda>c. \<not> is_space c)))) ?sp) (t, ?c1) =
      ([], ?c1(3 \<mapsto> t)) # r45" by blast
  from assms have "t = [] \<or> \<not> is_space (hd t)" by (cases t) auto
  then have 3: "matches ?sp (t, ?c1) = [(t, ?c1)]" by (rule matches_Rep_stop)
  from matches_Cat_hd[OF 3 45] obtain r345 where
    345: "matches (Cat ?sp (Cat (Grp 3 (Rep (Atom (\<lambda>c. \<not> is_space c)))) ?sp)) (t, ?c1) =
      ([], ?c1(3 \<mapsto> t)) # r345" by blast
  from matches_operator[of t Map.empty] obtain r2 where
    2: "matches (Grp 1 (Grp 2 (Alts (map (Word Lit)
       [''~='', ''==='', ''=='', ''!='', ''<='', ''>='', ''<'', ''>''])))) (''==='' @ t, Map.empty)
     = (t, ?c1) # r2" by blast
  from matches_Cat_hd[OF 2 345] obtain r2345 where
    2345: "matches (Cat (Grp 1 (Grp 2 (Alts (map (Word Lit)
       [''~='', ''==='', ''=='', ''!='', ''<='', ''>='', ''<'', ''>'']))))
       (Cat ?sp (Cat (Grp 3 (Rep (Atom (\<lambda>c. \<not> is_space c)))) ?sp))) (''==='' @ t, Map.empty) =
      ([], ?c1(3 \<mapsto> t)) # r2345" by blast
  have 1: "matches ?sp (''==='' @ t, Map.empty) = [(''==='' @ t, Map.empty)]"
    by (rule matches_Rep_stop) (simp add: is_space_def)
  from matches_Cat_hd[OF 1 2345] obtain r where
    "matches specifierRegexp (''==='' @ t, Map.empty) = ([], ?c1(3 \<mapsto> t)) # r"
    unfolding specifierRegexp_def by blast
  then show ?thesis by (simp add: FindStringSubmatch_def)
qed

lemma newConstraint_arbitrary:
  assumes "list_all (\<lambda>c. \<not> is_space c) t"
  shows "newConstraint (''==='' @ t) =
     Inr \<lparr>c_version = t, c_operator = Some specifierArbitrary, c_original = ''==='' @ t\<rparr>"
  unfolding newConstraint_def FindStringSubmatch_arbitrary[OF assms]
  by (simp add: submatch_def map_of_operators)

lemma split_bars_none:
  "CHR ''|'' \<notin> set s \<Longrightarrow> split_bars acc s = [rev acc @ s]"
  by (induction acc s rule: split_bars.induct) auto

lemma NewConstraints_arbitrary:
  assumes "list_all (\<lambda>c. \<not> is_space c) t" "CHR '','' \<notin> set t" "CHR ''|'' \<notin> set t"
  shows "NewConstraints (''==='' @ t) =
     Inr \<lparr>constraints =
       [[\<lparr>c_version = t, c_operator = Some specifierArbitrary, c_original = ''==='' @ t\<rparr>]]\<rparr>"
proof -
  from assms(3) have a: "split_bars [] (''==='' @ t) = [''==='' @ t]"
    using split_bars_none[of "''==='' @ t" "[]"] by simp
  from assms(2) have b: "Split (''==='' @ t) CHR '','' = [''==='' @ t]"
    using split_at_no_sep[of "CHR '',''" "''==='' @ t" "[]"] by (simp add: Split_def)
  show ?thesis
    unfolding NewConstraints_def a newConstraints_or.simps b newConstraints_and.simps
      newConstraint_arbitrary[OF assms(1)]
    by simp
qed

section \<open>The clause of arbitrary equality\<close>

lemma Check_single: "Check \<lparr>constraints = [[c]]\<rparr> v = check c v"
  by (cases "check c v") (auto simp: Check_def)

lemma arbitrary_examples:
  "(case NewConstraints ''===not.a.version'' of Inr c \<Rightarrow> True | Inl e \<Rightarrow> False)"
  "(case NewConstraints ''==not.a.version'' of Inr c \<Rightarrow> False | Inl e \<Rightarrow> True)"
  "(case (NewConstraints ''===1.0'', NewConstraints ''==1.0'', Parse ''1.0.0'') of
      (Inr c, Inr d, Inr v) \<Rightarrow> Check c v = Some False \<and> Check d v = Some True
    | _ \<Rightarrow> False)"
  by code_simp+

lemma arbitrary_witness_example:
  "(case Parse ''1.0-rc.1'' of Inr v \<Rightarrow> String v = Some ''1.0rc1'' | Inl e \<Rightarrow> False)"
  "EqualFold ''1.0rc1'' ''1.0RC1''"
  by code_simp+

text \<open>
  Claim C8. For a text \<open>t\<close> of ASCII characters without white space, a version or not, the
  clause \<open>===t\<close> is constructed, with \<open>t\<close> as its version text: nothing validates \<open>t\<close>. On a
  version that \<open>Parse\<close> returns the clause holds exactly when \<open>String\<close> of the version and \<open>t\<close>
  are equal up to the case of the letters; when \<open>t\<close> has no comma and no bar, this is what
  \<open>NewConstraints\<close> and \<open>Check\<close> return for the expression \<open>===t\<close>. So \<open>===not.a.version\<close> is
  constructed where \<open>==not.a.version\<close> is refused, and \<open>===1.0\<close> does not hold of 1.0.0, which
  \<open>==1.0\<close> holds of.
\<close>

theorem C8_arbitrary_equality:
  assumes "list_all (\<lambda>c. \<not> is_space c \<and> is_ascii c) t" "Parse u = Inr v"
  shows "(\<exists>c str. newConstraint (''==='' @ t) = Inr c \<and> c_version c = t \<and>
            c_original c = ''==='' @ t \<and> String v = Some str \<and>
            check c v = Some (EqualFold str t) \<and>
            (CHR '','' \<notin> set t \<and> CHR ''|'' \<notin> set t \<longrightarrow>
               (\<exists>cs. NewConstraints (''==='' @ t) = Inr cs \<and> Check cs v = Some (EqualFold str t))))
       \<and> (case NewConstraints ''===not.a.version'' of Inr c \<Rightarrow> True | Inl e \<Rightarrow> False)
       \<and> (case NewConstraints ''==not.a.version'' of Inr c \<Rightarrow> False | Inl e \<Rightarrow> True)
       \<and> (case (NewConstraints ''===1.0'', NewConstraints ''==1.0'', Parse ''1.0.0'') of
             (Inr c, Inr d, Inr w) \<Rightarrow> Check c w = Some False \<and> Check d w = Some True
           | _ \<Rightarrow> False)"
proof -
  let ?c = "\<lparr>c_version = t, c_operator = Some specifierArbitrary, c_original = ''==='' @ t\<rparr>"
  from assms(1) have ns: "list_all (\<lambda>c. \<not> is_space c) t" by (simp add: list_all_iff)
  note s = String_wf[OF Parse_wf(1)[OF assms(2)]]
  have c: "check ?c v = Some (EqualFold (canonical v) t)"
    by (simp add: check_def specifierArbitrary_def s)
  have n: "CHR '','' \<notin> set t \<and> CHR ''|'' \<notin> set t \<longrightarrow>
      (\<exists>cs. NewConstraints (''==='' @ t) = Inr cs \<and> Check cs v = Some (EqualFold (canonical v) t))"
    using NewConstraints_arbitrary[OF ns] c by (simp add: Check_single)
  have "\<exists>c str. newConstraint (''==='' @ t) = Inr c \<and> c_version c = t \<and>
            c_original c = ''==='' @ t \<and> String v = Some str \<and>
            check c v = Some (EqualFold str t) \<and>
            (CHR '','' \<notin> set t \<and> CHR ''|'' \<notin> set t \<longrightarrow>
               (\<exists>cs. NewConstraints (''==='' @ t) = Inr cs \<and> Check cs v = Some (EqualFold str t)))"
    using newConstraint_arbitrary[OF ns] s c n
    by (intro exI[of _ ?c] exI[of _ "canonical v"]) simp
  with arbitrary_examples show ?thesis by blast
qed

theorem C8_arbitrary_equality_witness:
  "\<exists>c v. newConstraint ''===1.0RC1'' = Inr c \<and> Parse ''1.0-rc.1'' = Inr v \<and>
     String v = Some ''1.0rc1'' \<and> check c v = Some True"
proof -
  from arbitrary_witness_example(1) obtain v where p: "Parse ''1.0-rc.1'' = Inr v"
    and s: "String v = Some ''1.0rc1''" by (auto split: sum.splits)
  have "list_all (\<lambda>c. \<not> is_space c \<and> is_ascii c) ''1.0RC1''"
    by (simp add: is_space_def is_ascii_def)
  from C8_arbitrary_equality[OF this p] obtain c str where
    "newConstraint (''==='' @ ''1.0RC1'') = Inr c" "String v = Some str"
    "check c v = Some (EqualFold str ''1.0RC1'')" by blast
  with s arbitrary_witness_example(2) p show ?thesis by auto
qed

end
